theory Spec2Isabelle
  imports Main "HOL-Library.Word" "HOL-Library.Signed_Division" "HOL-Library.Sublist"
begin

unbundle bit_operations_syntax

section \<open>tcpclient.c: data model\<close>

text \<open>
  The program is one C file driven by libevent. The embedding keeps the C names.
  Unsigned machine integers are words (\<open>uint16_t\<close>, \<open>unsigned long\<close>), where C
  arithmetic wraps around. The fields of \<open>struct timespec\<close> and \<open>struct timeval\<close>
  are signed 64-bit (\<open>time_t\<close>, \<open>long\<close>): they are kept as \<open>int\<close>, and every
  arithmetic operation the code performs in \<open>long\<close> is followed by \<open>to_long\<close>, the
  reduction to the two's-complement range that the compiled code performs. Signed
  division and remainder truncate towards zero (\<open>sdiv\<close>, \<open>smod\<close>).
\<close>

type_synonym byte = "8 word"
type_synonym uint16_t = "16 word"
type_synonym ulong = "64 word"

definition MAX_QUERIES_IN_FLIGHT :: nat where
  "MAX_QUERIES_IN_FLIGHT = 8"

record timespec =
  tv_sec :: int
  tv_nsec :: int

text \<open>\<open>struct timeval\<close>; its seconds field is written \<open>tv_sec_us\<close> here because a
  record field name is global and \<open>tv_sec\<close> is taken by \<open>timespec\<close>.\<close>

record timeval =
  tv_sec_us :: int
  tv_usec :: int

definition to_long :: "int \<Rightarrow> int" where
  "to_long x = sint (word_of_int x :: 64 word)"

subsection \<open>subtract\_timespec (lines 69-84)\<close>

definition subtract_timespec :: "timespec \<Rightarrow> timespec \<Rightarrow> timespec" where
  "subtract_timespec a b =
     (if tv_sec a < tv_sec b \<or> (tv_sec a = tv_sec b \<and> tv_nsec a \<le> tv_nsec b)
      then \<lparr>tv_sec = 0, tv_nsec = 0\<rparr>
      else if tv_nsec a < tv_nsec b
        then \<lparr>tv_sec = to_long (to_long (tv_sec a - tv_sec b) - 1),
              tv_nsec = to_long (to_long (tv_nsec a + 1000000000) - tv_nsec b)\<rparr>
        else \<lparr>tv_sec = to_long (tv_sec a - tv_sec b),
              tv_nsec = to_long (tv_nsec a - tv_nsec b)\<rparr>)"

text \<open>The value \<open>readcb\<close> prints (line 126): \<open>result.tv_nsec / 1000 + 1000000 * result.tv_sec\<close>.\<close>

definition rtt_usec :: "timespec \<Rightarrow> int" where
  "rtt_usec result = to_long ((tv_nsec result sdiv 1000) + to_long (1000000 * tv_sec result))"

text \<open>Vocabulary for the statements: the range of \<open>long\<close>, a normalized time stamp,
  the instant it denotes in nanoseconds, and a stamp as \<open>CLOCK_MONOTONIC\<close> returns it:
  normalized, with a non-negative number of seconds small enough for the difference of
  two such stamps to be printed in microseconds (below \<open>2 ^ 63 / 10 ^ 6\<close> seconds).\<close>

definition in_long :: "int \<Rightarrow> bool" where
  "in_long x = (- (2 ^ 63) \<le> x \<and> x < 2 ^ 63)"

definition normalized :: "timespec \<Rightarrow> bool" where
  "normalized t = (0 \<le> tv_nsec t \<and> tv_nsec t < 1000000000)"

definition nsecs :: "timespec \<Rightarrow> int" where
  "nsecs t = 1000000000 * tv_sec t + tv_nsec t"

definition clock_stamp :: "timespec \<Rightarrow> bool" where
  "clock_stamp t = (normalized t \<and> 0 \<le> tv_sec t \<and> tv_sec t < 9223372036854)"

subsection \<open>Big-endian 16-bit fields (DO\_NTOHS, DO\_HTONS, lines 27-38)\<close>

text \<open>\<open>DO_NTOHS(_d, _s)\<close> copies the two bytes at \<open>_s\<close> and converts from network order:
  the first byte is the high one. \<open>DO_HTONS(_d, _s)\<close> stores the high byte of \<open>_s\<close> at
  \<open>_d\<close> and the low byte at \<open>_d + 1\<close>. The pointer is a buffer and an offset.\<close>

definition DO_NTOHS :: "byte list \<Rightarrow> nat \<Rightarrow> uint16_t" where
  "DO_NTOHS s i = push_bit 8 (ucast (s ! i)) OR ucast (s ! (i + 1))"

definition DO_HTONS :: "byte list \<Rightarrow> nat \<Rightarrow> uint16_t \<Rightarrow> byte list" where
  "DO_HTONS d i s = d[i := ucast (drop_bit 8 s), i + 1 := ucast s]"

subsection \<open>Per-connection state and the process-wide state\<close>

text \<open>
  One connection: \<open>struct writecb_params\<close> (lines 58-66) together with the two
  evbuffers of the bufferevent its \<open>bev\<close> field points to. Each \<open>setups[conn]\<close> points
  to its own bufferevent, so the buffers are kept inline; \<open>input_buf\<close> is
  \<open>bufferevent_get_input(bev)\<close> and \<open>output_buf\<close> is \<open>bufferevent_get_output(bev)\<close>.
\<close>

record conn =
  input_buf :: "byte list"
  output_buf :: "byte list"
  interval :: timeval
  query_id :: uint16_t
  query_timestamps :: "timespec list"

text \<open>
  What the callbacks share: the monotonic clock (\<open>clock w n\<close> is what the \<open>n\<close>-th call
  of \<open>clock_gettime(CLOCK_MONOTONIC, _)\<close> returns, \<open>clock_reads\<close> counts the calls made),
  the global \<open>print_rtt\<close>, the lines \<open>printf\<close> wrote to standard output, the
  messages the callbacks write to standard error whatever \<open>verbose\<close> is (the
  \<open>debug\<close> and \<open>info\<close> macros are diagnostics and are left out), and the \<open>static char data[]\<close>
  of \<open>writecb\<close>, which keeps its contents between calls and across connections.
\<close>

record world =
  clock :: "nat \<Rightarrow> timespec"
  clock_reads :: nat
  print_rtt :: bool
  stdout :: "int list"
  stderr :: "string list"
  data :: "byte list"

text \<open>The initializer of \<open>data\<close> (lines 137-144); \<open>sizeof(data)\<close> is 31.\<close>

definition data_init :: "byte list" where
  "data_init =
     [0x00, 0x1d,
      0xff, 0xff,
      0x01, 0x00, 0x00, 0x01, 0x00, 0x00,
      0x00, 0x00, 0x00, 0x00, 0x07, 0x65, 0x78, 0x61,
      0x6d, 0x70, 0x6c, 0x65, 0x03, 0x63, 0x6f, 0x6d,
      0x00, 0x00, 0x01, 0x00, 0x01]"

definition sizeof_data :: nat where
  "sizeof_data = 31"

subsection \<open>readcb (lines 86-129)\<close>

text \<open>Lines 120-127: when \<open>print\_rtt\<close> is set, read the clock, subtract the stamp in
  slot \<open>query_id % MAX_QUERIES_IN_FLIGHT\<close> and print the difference in microseconds.\<close>

definition report_rtt :: "conn \<Rightarrow> uint16_t \<Rightarrow> world \<Rightarrow> world" where
  "report_rtt c qid w =
     (if print_rtt w then
        (let now = clock w (clock_reads w);
             result = subtract_timespec now
                        (query_timestamps c ! (unat qid mod MAX_QUERIES_IN_FLIGHT))
         in w\<lparr>clock_reads := Suc (clock_reads w), stdout := stdout w @ [rtt_usec result]\<rparr>)
      else w)"

text \<open>
  One iteration of the \<open>while (1)\<close> loop. \<open>None\<close> is either \<open>return\<close>; \<open>Some\<close> carries
  the query ID of the message that was drained (the frame the iteration yields), the
  connection with \<open>dns_len + 2\<close> bytes removed from the front of its input buffer, and
  the world after the optional RTT line. \<open>dns_len + 2\<close> is computed in \<open>int\<close> and
  cannot overflow.
\<close>

definition readcb_step :: "conn \<Rightarrow> world \<Rightarrow> (uint16_t \<times> conn \<times> world) option" where
  "readcb_step c w =
     (let input_len = length (input_buf c) in
      if input_len < 4 then None
      else
        (let dns_len = DO_NTOHS (input_buf c) 0;
             qid = DO_NTOHS (input_buf c) 2
         in if input_len < unat dns_len + 2 then None
            else Some (qid,
                       c\<lparr>input_buf := drop (unat dns_len + 2) (input_buf c)\<rparr>,
                       report_rtt c qid w)))"

function readcb :: "conn \<Rightarrow> world \<Rightarrow> uint16_t list \<times> conn \<times> world" where
  "readcb c w =
     (case readcb_step c w of
        None \<Rightarrow> ([], c, w)
      | Some (qid, c', w') \<Rightarrow>
          (case readcb c' w' of (qids, c'', w'') \<Rightarrow> (qid # qids, c'', w'')))"
  by pat_completeness auto
termination
proof (relation "measure (\<lambda>(c, w). length (input_buf c))")
  show "wf (measure (\<lambda>(c, w). length (input_buf c)))"
    by simp
next
  fix c w x2 qid y c' w'
  assume "readcb_step c w = Some x2" and "(qid, y) = x2" and "(c', w') = y"
  then have "readcb_step c w = Some (qid, c', w')"
    by simp
  then have "length (input_buf c') < length (input_buf c)"
    by (auto simp: readcb_step_def Let_def split: if_splits)
  then show "((c', w'), (c, w)) \<in> measure (\<lambda>(c, w). length (input_buf c))"
    by simp
qed

declare readcb.simps [simp del]

subsection \<open>writecb, setup\_writecb and eventcb (lines 131-181)\<close>

definition writecb :: "conn \<Rightarrow> world \<Rightarrow> conn \<times> world" where
  "writecb c w =
     (let data' = DO_HTONS (data w) 2 (query_id c);
          now = clock w (clock_reads w)
      in (c\<lparr>query_timestamps :=
              (query_timestamps c)[unat (query_id c) mod MAX_QUERIES_IN_FLIGHT := now],
            output_buf := output_buf c @ take sizeof_data data',
            query_id := query_id c + 1\<rparr>,
          w\<lparr>data := data', clock_reads := Suc (clock_reads w)\<rparr>))"

text \<open>\<open>setup_writecb\<close> adds the persistent event (\<open>add_ok\<close> tells whether \<open>event_add\<close>
  returned 0; a failure is only reported) and sends the first query.\<close>

definition setup_writecb :: "bool \<Rightarrow> conn \<Rightarrow> world \<Rightarrow> conn \<times> world" where
  "setup_writecb add_ok c w =
     writecb c
       (if add_ok then w
        else w\<lparr>stderr := stderr w @ [''Failed to add periodic sending task'']\<rparr>)"

text \<open>\<open>eventcb\<close>: the flag \<open>BEV_EVENT_ERROR\<close> comes from libevent's headers and is a
  parameter here. The callback has no access to the connection's parameters.\<close>

definition eventcb :: "16 word \<Rightarrow> 16 word \<Rightarrow> world \<Rightarrow> world" where
  "eventcb BEV_EVENT_ERROR events w =
     (if events AND BEV_EVENT_ERROR \<noteq> 0
      then w\<lparr>stderr := stderr w @ [''Connection error'']\<rparr>
      else w)"

subsection \<open>The event loop as a trace of callbacks\<close>

text \<open>
  \<open>event_base_dispatch\<close> runs the callbacks one at a time. A run of the loop is a
  list of events, each on one connection (an index into \<open>setups\<close>): the one-shot timer
  fires \<open>setup_writecb\<close>; the persistent timer it installed fires \<open>writecb\<close>; libevent
  appends received bytes to the input buffer; \<open>readcb\<close> then runs its loop, one
  \<open>Decode\<close> per iteration; \<open>eventcb\<close> is
  called with the event flags. An event on an index outside the array changes nothing.
\<close>

datatype event =
    Setup_fire bool
  | Write_fire
  | Arrive "byte list"
  | Decode
  | Bev_event "16 word"

fun callback :: "16 word \<Rightarrow> event \<Rightarrow> conn \<Rightarrow> world \<Rightarrow> conn \<times> world" where
  "callback err (Setup_fire add_ok) c w = setup_writecb add_ok c w"
| "callback err Write_fire c w = writecb c w"
| "callback err (Arrive bs) c w = (c\<lparr>input_buf := input_buf c @ bs\<rparr>, w)"
| "callback err Decode c w =
     (case readcb_step c w of None \<Rightarrow> (c, w) | Some (qid, c', w') \<Rightarrow> (c', w'))"
| "callback err (Bev_event events) c w = (c, eventcb err events w)"

definition step :: "16 word \<Rightarrow> conn list \<times> world \<Rightarrow> nat \<times> event \<Rightarrow> conn list \<times> world" where
  "step err s ie =
     (let setups = fst s; w = snd s; i = fst ie in
      if i < length setups
      then (let r = callback err (snd ie) (setups ! i) w in (setups[i := fst r], snd r))
      else s)"

definition run :: "16 word \<Rightarrow> conn list \<times> world \<Rightarrow> (nat \<times> event) list \<Rightarrow> conn list \<times> world" where
  "run err s evs = foldl (step err) s evs"

text \<open>The events of a trace that send on connection \<open>i\<close>.\<close>

definition is_send :: "nat \<Rightarrow> nat \<times> event \<Rightarrow> bool" where
  "is_send i ie = (fst ie = i \<and> (case snd ie of Setup_fire _ \<Rightarrow> True | Write_fire \<Rightarrow> True | _ \<Rightarrow> False))"

definition sends :: "nat \<Rightarrow> (nat \<times> event) list \<Rightarrow> nat" where
  "sends i evs = length (filter (is_send i) evs)"

subsection \<open>main: options and intervals (lines 211-267)\<close>

text \<open>
  \<open>getopt\<close> and \<open>strtoul\<close> are library code: the model starts from the options
  \<open>getopt\<close> reports, in order, numeric arguments already converted by \<open>strtoul\<close>, and
  from the positional argument \<open>argv[optind]\<close> (\<open>None\<close> when \<open>optind >= argc\<close>).
  \<open>Opt_other\<close> is any character that reaches \<open>default:\<close>.
\<close>

datatype opt =
    Opt_p string
  | Opt_r ulong
  | Opt_c ulong
  | Opt_n ulong
  | Opt_v
  | Opt_R
  | Opt_t ulong
  | Opt_h
  | Opt_other

record options =
  port :: "string option"
  rate :: ulong
  nb_conn :: ulong
  new_conn_rate :: ulong
  duration :: ulong
  verbose :: "16 word"
  opt_print_rtt :: bool

definition options_init :: options where
  "options_init =
     \<lparr>port = None, rate = 0, nb_conn = 0, new_conn_rate = 1000, duration = 0,
      verbose = 0, opt_print_rtt = False\<rparr>"

text \<open>The option loop: \<open>Inl\<close> is the exit code of a \<open>return\<close> inside the loop.\<close>

fun getopt_loop :: "options \<Rightarrow> opt list \<Rightarrow> int + options" where
  "getopt_loop cfg [] = Inr cfg"
| "getopt_loop cfg (Opt_p s # rest) = getopt_loop (cfg\<lparr>port := Some s\<rparr>) rest"
| "getopt_loop cfg (Opt_r v # rest) = getopt_loop (cfg\<lparr>rate := v\<rparr>) rest"
| "getopt_loop cfg (Opt_c v # rest) = getopt_loop (cfg\<lparr>nb_conn := v\<rparr>) rest"
| "getopt_loop cfg (Opt_n v # rest) = getopt_loop (cfg\<lparr>new_conn_rate := v\<rparr>) rest"
| "getopt_loop cfg (Opt_v # rest) = getopt_loop (cfg\<lparr>verbose := verbose cfg + 1\<rparr>) rest"
| "getopt_loop cfg (Opt_R # rest) = getopt_loop (cfg\<lparr>opt_print_rtt := True\<rparr>) rest"
| "getopt_loop cfg (Opt_t v # rest) = getopt_loop (cfg\<lparr>duration := v\<rparr>) rest"
| "getopt_loop cfg (Opt_h # rest) = Inl 0"
| "getopt_loop cfg (Opt_other # rest) = Inl 1"

text \<open>
  Lines 262-264. \<open>nb_conn\<close> and \<open>rate\<close> are \<open>unsigned long\<close>: the product
  \<open>1000000 * nb_conn\<close> wraps modulo \<open>2 ^ 64\<close>, and the unsigned results are stored into
  the signed fields of the \<open>timeval\<close> (\<open>sint\<close>).
\<close>

definition write_interval :: "ulong \<Rightarrow> ulong \<Rightarrow> timeval" where
  "write_interval nb rt =
     (let sec = sint (nb div rt);
          usec = sint (((1000000 * nb) div rt) mod 1000000)
      in \<lparr>tv_sec_us = sec, tv_usec = (if usec > 0 then usec else 1)\<rparr>)"

text \<open>How \<open>main\<close> can stop before the event loop: a \<open>return\<close> with an exit code, or the
  unsigned division by zero of line 267 (undefined in C; a trap on the usual targets).\<close>

datatype stop = Exit int | Division_by_zero

text \<open>Lines 255-267: the validity check, the write interval and the interval between
  two new connections.\<close>

definition main_intervals :: "options \<Rightarrow> string option \<Rightarrow> stop + (timeval \<times> ulong)" where
  "main_intervals cfg host =
     (if host = None \<or> port cfg = None \<or> rate cfg = 0 \<or> nb_conn cfg = 0
      then Inl (Exit 1)
      else
        (let wi = write_interval (nb_conn cfg) (rate cfg) in
         if new_conn_rate cfg = 0 then Inl Division_by_zero
         else Inr (wi, 1000000 div new_conn_rate cfg)))"

subsection \<open>main: ramp-up (lines 345-372)\<close>

text \<open>
  What the two library calls of one iteration do is the environment's choice:
  \<open>bufferevent_socket_new\<close> returns \<open>NULL\<close>, or \<open>bufferevent_socket_connect\<close> fails,
  or both succeed. \<open>bufevents\<close> is the array of pointers (\<open>None\<close> is \<open>NULL\<close>, the
  bufferevent created for index \<open>conn\<close> is \<open>Some conn\<close>); it comes from \<open>malloc\<close>, so
  its initial contents are arbitrary. The result is the final value of \<open>conn\<close>, the
  array, and the indices for which an attempt was made.
\<close>

datatype attempt = New_fails | Connect_fails | Connected

function ramp ::
  "(nat \<Rightarrow> attempt) \<Rightarrow> nat \<Rightarrow> nat \<Rightarrow> nat option list \<Rightarrow> nat \<times> nat option list \<times> nat list" where
  "ramp att nb conn bufevents =
     (if conn < nb then
        (case att conn of
           New_fails \<Rightarrow> (conn, bufevents[conn := None], [conn])
         | Connect_fails \<Rightarrow> (conn, bufevents[conn := None], [conn])
         | Connected \<Rightarrow>
             (case ramp att nb (Suc conn) (bufevents[conn := Some conn]) of
                (conn', bufevents', tried) \<Rightarrow> (conn', bufevents', conn # tried)))
      else (conn, bufevents, []))"
  by pat_completeness auto
termination
  by (relation "measure (\<lambda>(att, nb, conn, bufevents). nb - conn)") auto

declare ramp.simps [simp del]

subsection \<open>main: scheduling the first send (lines 375-389)\<close>

text \<open>
  Line 377: \<open>random()\<close> returns a \<open>long\<close>, the modulus is computed in \<open>long\<close>, and the
  remainder is stored into the \<open>unsigned long\<close> \<open>rand_usec\<close>. Lines 378-379 split it
  into the fields of \<open>initial_timeout\<close>. A remainder by zero is undefined in C
  (\<open>smod\<close> then returns the dividend); the statements below are about intervals for
  which the modulus is positive.
\<close>

definition rand_usec :: "timeval \<Rightarrow> int \<Rightarrow> ulong" where
  "rand_usec wi r =
     word_of_int
       (r smod to_long (to_long (to_long (1000000 * tv_sec_us wi) + tv_usec wi) + 1))"

definition initial_timeout :: "timeval \<Rightarrow> int \<Rightarrow> timeval" where
  "initial_timeout wi r =
     \<lparr>tv_sec_us = sint (rand_usec wi r div 1000000),
      tv_usec = sint (rand_usec wi r mod 1000000)\<rparr>"

text \<open>A \<open>timeval\<close> in microseconds.\<close>

definition usecs :: "timeval \<Rightarrow> int" where
  "usecs t = 1000000 * tv_sec_us t + tv_usec t"

text \<open>
  The loop. \<open>rnd\<close> is \<open>random()\<close> as a function of the generator's state. \<open>setups\<close>
  is the second array from \<open>malloc\<close>; the loop writes \<open>interval\<close>, \<open>bev\<close> and \<open>query_id\<close>
  of each live connection and leaves \<open>query_timestamps\<close> as it was. Assigning \<open>bev\<close>
  attaches the bufferevent created during ramp-up, whose two evbuffers are still empty
  (the event loop has not run). The first component of the result lists the one-shot
  events handed to \<open>event_add\<close>: the connection and its initial timeout.
\<close>

function schedule ::
  "('g \<Rightarrow> int \<times> 'g) \<Rightarrow> timeval \<Rightarrow> nat \<Rightarrow> nat option list \<Rightarrow> nat \<Rightarrow> 'g \<Rightarrow> conn list
     \<Rightarrow> (nat \<times> timeval) list \<times> conn list" where
  "schedule rnd wi nb bufevents conn g setups =
     (if conn < nb \<and> bufevents ! conn \<noteq> None then
        (let r = fst (rnd g);
             setups' = setups[conn := (setups ! conn)
                         \<lparr>input_buf := [], output_buf := [], interval := wi, query_id := 0\<rparr>]
         in case schedule rnd wi nb bufevents (Suc conn) (snd (rnd g)) setups' of
              (timers, setups'') \<Rightarrow> ((conn, initial_timeout wi r) # timers, setups''))
      else ([], setups))"
  by pat_completeness auto
termination
  by (relation "measure (\<lambda>(rnd, wi, nb, bufevents, conn, g, setups). nb - conn)") auto

declare schedule.simps [simp del]

subsection \<open>main as a whole (lines 194-392)\<close>

text \<open>
  The environment of one run: whether \<open>getaddrinfo\<close> succeeds, whether one of the
  resolved addresses accepts the blocking test connection, whether \<open>event_base_new\<close>
  succeeds, the outcome of each ramp-up attempt, the contents \<open>malloc\<close> returns for
  the two arrays (both calls are taken to succeed with room for \<open>nb_conn\<close> elements),
  and the clock. \<open>srandom\<close> and \<open>random\<close> are the C library's: \<open>main\<close> takes them as
  parameters, and no other code of the program draws from the generator.
\<close>

record env =
  getaddrinfo_ok :: bool
  probe_ok :: bool
  event_base_ok :: bool
  attempts :: "nat \<Rightarrow> attempt"
  bufevents_garbage :: "nat \<Rightarrow> nat option"
  setups_garbage :: "nat \<Rightarrow> conn"
  env_clock :: "nat \<Rightarrow> timespec"

text \<open>The state in which \<open>event_base_dispatch\<close> is entered.\<close>

record started =
  opened :: nat
  tried :: "nat list"
  timers :: "(nat \<times> timeval) list"
  setups0 :: "conn list"
  world0 :: world

definition main ::
  "(32 word \<Rightarrow> 'g) \<Rightarrow> ('g \<Rightarrow> int \<times> 'g) \<Rightarrow> env \<Rightarrow> opt list \<Rightarrow> string option \<Rightarrow> stop + started" where
  "main seed rnd e opts host =
     (case getopt_loop options_init opts of
        Inl code \<Rightarrow> Inl (Exit code)
      | Inr cfg \<Rightarrow>
          (case main_intervals cfg host of
             Inl st \<Rightarrow> Inl st
           | Inr (wi, new_conn_interval) \<Rightarrow>
               (let g = seed 42 in
                if \<not> getaddrinfo_ok e then Inl (Exit 1)
                else if \<not> probe_ok e then Inl (Exit 1)
                else if \<not> event_base_ok e then Inl (Exit 1)
                else
                  (let n = unat (nb_conn cfg);
                       ramped = ramp (attempts e) n 0 (map (bufevents_garbage e) [0..<n]);
                       sched = schedule rnd wi n (fst (snd ramped)) 0 g
                                 (map (setups_garbage e) [0..<n])
                   in Inr \<lparr>opened = fst ramped,
                           tried = snd (snd ramped),
                           timers = fst sched,
                           setups0 = snd sched,
                           world0 = \<lparr>clock = env_clock e, clock_reads = 0,
                                      print_rtt = opt_print_rtt cfg, stdout = [],
                                      stderr = [], data = data_init\<rparr>\<rparr>))))"

text \<open>Vocabulary for the statements about the decoder: a complete frame on the wire
  (a length field \<open>L \<ge> 2\<close> followed by \<open>L\<close> bytes, the first two of which are the
  identifier), and its identifier.\<close>

definition is_frame :: "byte list \<Rightarrow> bool" where
  "is_frame f = (4 \<le> length f \<and> length f = unat (DO_NTOHS f 0) + 2)"

definition frame_id :: "byte list \<Rightarrow> uint16_t" where
  "frame_id f = DO_NTOHS f 2"

text \<open>The request frame of the wire format: the length 29, the identifier, the payload.\<close>

definition request_frame :: "uint16_t \<Rightarrow> byte list" where
  "request_frame q = [0x00, 0x1d, ucast (drop_bit 8 q), ucast q] @ drop 4 data_init"

text \<open>The invariant of the static array: only bytes 2 and 3 ever differ from the
  initializer.\<close>

definition data_ok :: "byte list \<Rightarrow> bool" where
  "data_ok d = (length d = sizeof_data \<and> take 2 d = take 2 data_init \<and> drop 4 d = drop 4 data_init)"

text \<open>The first \<open>n\<close> initial timeouts drawn from generator state \<open>g\<close>: what the
  scheduling loop computes for \<open>n\<close> live connections, without the arrays.\<close>

fun delays :: "('g \<Rightarrow> int \<times> 'g) \<Rightarrow> timeval \<Rightarrow> 'g \<Rightarrow> nat \<Rightarrow> timeval list" where
  "delays rnd wi g 0 = []"
| "delays rnd wi g (Suc n) = initial_timeout wi (fst (rnd g)) # delays rnd wi (snd (rnd g)) n"

text \<open>The initial delays a run of \<open>main\<close> hands to the scheduler, in connection order
  (none when \<open>main\<close> stops before the scheduling loop).\<close>

definition delays_of :: "stop + started \<Rightarrow> timeval list" where
  "delays_of x = (case x of Inl st \<Rightarrow> [] | Inr r \<Rightarrow> map snd (timers r))"

text \<open>A buffer on which the loop of \<open>readcb\<close> returns at once: too short for a
  header, or shorter than the message its header announces.\<close>

definition stops :: "byte list \<Rightarrow> bool" where
  "stops b = (length b < 4 \<or> length b < unat (DO_NTOHS b 0) + 2)"

subsection \<open>Concrete instances\<close>

text \<open>A clock that advances one second per reading, a world that prints RTT samples,
  and a freshly scheduled connection with zeroed time stamps.\<close>

definition ex_clock :: "nat \<Rightarrow> timespec" where
  "ex_clock n = \<lparr>tv_sec = int n, tv_nsec = 500\<rparr>"

definition ex_world :: world where
  "ex_world = \<lparr>clock = ex_clock, clock_reads = 0, print_rtt = True, stdout = [],
               stderr = [], data = data_init\<rparr>"

definition ex_conn :: conn where
  "ex_conn = \<lparr>input_buf = [], output_buf = [],
              interval = \<lparr>tv_sec_us = 2, tv_usec = 1\<rparr>, query_id = 0,
              query_timestamps = replicate 8 \<lparr>tv_sec = 0, tv_nsec = 0\<rparr>\<rparr>"

text \<open>An environment in which the third attempt fails at \<open>connect\<close>, and a small
  linear congruential generator standing in for \<open>srandom\<close> and \<open>random\<close>.\<close>

definition ex_att :: "nat \<Rightarrow> attempt" where
  "ex_att j = (if j = 2 then Connect_fails else Connected)"

definition ex_seed :: "32 word \<Rightarrow> nat" where
  "ex_seed x = unat x"

definition ex_rnd :: "nat \<Rightarrow> int \<times> nat" where
  "ex_rnd g = (int ((1103515245 * g + 12345) mod 2147483648),
               (1103515245 * g + 12345) mod 2147483648)"

text \<open>An environment in which name resolution, the test connection and the event base
  succeed, with the given ramp-up outcomes; and a command line
  \<open>-p 53 -r 2 -c 4 -R host\<close>.\<close>

definition ex_env :: "(nat \<Rightarrow> attempt) \<Rightarrow> env" where
  "ex_env att =
     \<lparr>getaddrinfo_ok = True, probe_ok = True, event_base_ok = True, attempts = att,
      bufevents_garbage = (\<lambda>j. Some 99), setups_garbage = (\<lambda>j. ex_conn),
      env_clock = ex_clock\<rparr>"

definition ex_opts :: "opt list" where
  "ex_opts = [Opt_p ''53'', Opt_r 2, Opt_c 4, Opt_R]"

section \<open>Time stamp subtraction\<close>

lemma report_rtt_stdout:
  assumes "print_rtt w"
  shows "stdout (report_rtt c qid w) =
         stdout w @ [rtt_usec (subtract_timespec (clock w (clock_reads w))
                       (query_timestamps c ! (unat qid mod MAX_QUERIES_IN_FLIGHT)))]"
  using assms by (simp add: report_rtt_def Let_def)

lemma to_long_id:
  assumes "in_long x"
  shows "to_long x = x"
proof -
  have "to_long x = signed_take_bit 63 x"
    by (simp add: to_long_def sint_sbintrunc')
  also have "\<dots> = x"
    using assms by (intro signed_take_bit_int_eq_self) (simp_all add: in_long_def)
  finally show ?thesis .
qed

lemma in_long_small:
  "- 9223372036854775808 \<le> x \<Longrightarrow> x < 9223372036854775808 \<Longrightarrow> in_long x"
  by (simp add: in_long_def)

text \<open>On stamps with non-negative seconds in the range of \<open>time_t\<close> no operation of
  \<open>subtract_timespec\<close> leaves the range of \<open>long\<close>.\<close>

lemma subtract_timespec_exact:
  assumes "normalized a" and "normalized b"
    and "0 \<le> tv_sec a" and "in_long (tv_sec a)" and "0 \<le> tv_sec b" and "in_long (tv_sec b)"
  shows "subtract_timespec a b =
     (if tv_sec a < tv_sec b \<or> (tv_sec a = tv_sec b \<and> tv_nsec a \<le> tv_nsec b)
      then \<lparr>tv_sec = 0, tv_nsec = 0\<rparr>
      else if tv_nsec a < tv_nsec b
        then \<lparr>tv_sec = tv_sec a - tv_sec b - 1,
              tv_nsec = tv_nsec a + 1000000000 - tv_nsec b\<rparr>
        else \<lparr>tv_sec = tv_sec a - tv_sec b, tv_nsec = tv_nsec a - tv_nsec b\<rparr>)"
proof -
  have s: "to_long (tv_sec a - tv_sec b) = tv_sec a - tv_sec b"
    using assms by (intro to_long_id) (simp add: in_long_def)
  have s1: "tv_sec b \<le> tv_sec a \<Longrightarrow> to_long (tv_sec a - tv_sec b - 1) = tv_sec a - tv_sec b - 1"
    using assms by (intro to_long_id) (simp add: in_long_def)
  have n1: "to_long (tv_nsec a + 1000000000) = tv_nsec a + 1000000000"
    using assms by (intro to_long_id) (simp add: in_long_def normalized_def)
  have n2: "to_long (tv_nsec a + 1000000000 - tv_nsec b) = tv_nsec a + 1000000000 - tv_nsec b"
    using assms by (intro to_long_id) (simp add: in_long_def normalized_def)
  have n3: "to_long (tv_nsec a - tv_nsec b) = tv_nsec a - tv_nsec b"
    using assms by (intro to_long_id) (simp add: in_long_def normalized_def)
  show ?thesis
    unfolding subtract_timespec_def s n1 n2 n3 using s1 by auto
qed


lemma nsecs_less_iff:
  assumes "normalized a" "normalized b"
  shows "nsecs b < nsecs a \<longleftrightarrow>
         tv_sec b < tv_sec a \<or> (tv_sec a = tv_sec b \<and> tv_nsec b < tv_nsec a)"
  using assms unfolding normalized_def nsecs_def by auto

lemma subtract_timespec_later:
  assumes "normalized a" and "normalized b"
    and "0 \<le> tv_sec a" and "in_long (tv_sec a)" and "0 \<le> tv_sec b" and "in_long (tv_sec b)"
    and "nsecs b < nsecs a"
  shows "nsecs (subtract_timespec a b) = nsecs a - nsecs b"
    and "normalized (subtract_timespec a b)"
    and "0 \<le> tv_sec (subtract_timespec a b)"
    and "tv_sec (subtract_timespec a b) \<le> tv_sec a - tv_sec b"
  using assms(1,2,7) unfolding subtract_timespec_exact [OF assms(1-6)] normalized_def nsecs_def
  by auto

lemma subtract_timespec_not_later:
  assumes "normalized a" and "normalized b" and "nsecs a \<le> nsecs b"
  shows "subtract_timespec a b = \<lparr>tv_sec = 0, tv_nsec = 0\<rparr>"
  using assms unfolding normalized_def nsecs_def subtract_timespec_def by auto

lemma sdiv_nonneg_eq_div:
  fixes x :: int
  assumes "0 \<le> x"
  shows "x sdiv 1000 = x div 1000"
  using assms by (simp add: signed_divide_int_def sgn_if)

text \<open>The printed value of a normalized difference of fewer than \<open>9223372036854\<close>
  seconds: no operation of line 126 leaves the range of \<open>long\<close>.\<close>

lemma rtt_usec_exact:
  assumes "normalized r" and "0 \<le> tv_sec r" and "tv_sec r < 9223372036854"
  shows "rtt_usec r = nsecs r div 1000" and "0 \<le> rtt_usec r"
proof -
  have n: "0 \<le> tv_nsec r" "tv_nsec r < 1000000000"
    using assms(1) by (simp_all add: normalized_def)
  have p: "to_long (1000000 * tv_sec r) = 1000000 * tv_sec r"
    using assms(2,3) by (intro to_long_id) (simp add: in_long_def)
  have d: "tv_nsec r sdiv 1000 = tv_nsec r div 1000"
    using n(1) by (rule sdiv_nonneg_eq_div)
  have d0: "0 \<le> tv_nsec r div 1000"
    using n(1) by (simp add: pos_imp_zdiv_nonneg_iff)
  have d1: "tv_nsec r div 1000 < 1000000"
    using n(2) by simp
  have q: "to_long (tv_nsec r div 1000 + 1000000 * tv_sec r) = tv_nsec r div 1000 + 1000000 * tv_sec r"
    using assms(2,3) d0 d1 by (intro to_long_id) (simp add: in_long_def)
  have v: "rtt_usec r = tv_nsec r div 1000 + 1000000 * tv_sec r"
    by (simp only: rtt_usec_def p d q)
  have "nsecs r = tv_nsec r + (1000000 * tv_sec r) * 1000"
    by (simp add: nsecs_def)
  then have "nsecs r div 1000 = tv_nsec r div 1000 + 1000000 * tv_sec r"
    by simp
  with v show "rtt_usec r = nsecs r div 1000"
    by simp
  from v d0 assms(2) show "0 \<le> rtt_usec r"
    by simp
qed

lemma rtt_usec_zero: "rtt_usec \<lparr>tv_sec = 0, tv_nsec = 0\<rparr> = 0"
  by (simp add: rtt_usec_def to_long_def)





section \<open>The frame decoder\<close>

lemma DO_NTOHS_append:
  assumes "i + 1 < length f"
  shows "DO_NTOHS (f @ rest) i = DO_NTOHS f i"
  using assms by (simp add: DO_NTOHS_def nth_append)

lemma readcb_short:
  assumes "length (input_buf c) < 4"
  shows "readcb c w = ([], c, w)"
  using assms by (subst readcb.simps) (simp add: readcb_step_def)

lemma readcb_incomplete:
  assumes "4 \<le> length (input_buf c)"
    and "length (input_buf c) < unat (DO_NTOHS (input_buf c) 0) + 2"
  shows "readcb c w = ([], c, w)"
  using assms by (subst readcb.simps) (simp add: readcb_step_def Let_def)

lemma readcb_complete:
  assumes "4 \<le> length (input_buf c)"
    and "unat (DO_NTOHS (input_buf c) 0) + 2 \<le> length (input_buf c)"
  shows "readcb c w =
         (case readcb (c\<lparr>input_buf := drop (unat (DO_NTOHS (input_buf c) 0) + 2) (input_buf c)\<rparr>)
                 (report_rtt c (DO_NTOHS (input_buf c) 2) w)
          of (qids, c'', w'') \<Rightarrow> (DO_NTOHS (input_buf c) 2 # qids, c'', w''))"
  using assms by (subst readcb.simps) (simp add: readcb_step_def Let_def)

text \<open>A buffer that starts with a complete frame.\<close>

lemma readcb_frame_first:
  assumes "is_frame f" and "input_buf c = f @ rest"
  shows "readcb c w =
         (case readcb (c\<lparr>input_buf := rest\<rparr>) (report_rtt c (frame_id f) w)
          of (qids, c'', w'') \<Rightarrow> (frame_id f # qids, c'', w''))"
proof -
  from assms have len: "4 \<le> length f" "length f = unat (DO_NTOHS f 0) + 2"
    by (simp_all add: is_frame_def)
  have h0: "DO_NTOHS (input_buf c) 0 = DO_NTOHS f 0"
    using len assms(2) by (simp add: DO_NTOHS_append)
  have h2: "DO_NTOHS (input_buf c) 2 = frame_id f"
    using len assms(2) by (simp add: DO_NTOHS_append frame_id_def)
  have dr: "drop (unat (DO_NTOHS (input_buf c) 0) + 2) (input_buf c) = rest"
    using len assms(2) h0 by simp
  have "4 \<le> length (input_buf c)"
    and "unat (DO_NTOHS (input_buf c) 0) + 2 \<le> length (input_buf c)"
    using len assms(2) h0 by simp_all
  from readcb_complete [OF this, of w] show ?thesis
    by (simp only: h2 dr)
qed

lemma readcb_stops:
  assumes "stops (input_buf c)"
  shows "readcb c w = ([], c, w)"
proof (cases "length (input_buf c) < 4")
  case True
  then show ?thesis by (rule readcb_short)
next
  case False
  with assms show ?thesis
    by (intro readcb_incomplete) (simp_all add: stops_def)
qed

lemma strict_prefix_stops:
  assumes "is_frame f" and "f = pre @ post" and "post \<noteq> []"
  shows "stops pre"
proof (cases "length pre < 4")
  case True
  then show ?thesis by (simp add: stops_def)
next
  case False
  then have "DO_NTOHS (pre @ post) 0 = DO_NTOHS pre 0"
    by (simp add: DO_NTOHS_append)
  with assms have "length pre < unat (DO_NTOHS pre 0) + 2"
    by (cases post) (simp_all add: is_frame_def)
  then show ?thesis by (simp add: stops_def)
qed

lemma readcb_frames:
  assumes "\<forall>f \<in> set fs. is_frame f" and "stops pre" and "input_buf c = concat fs @ pre"
  shows "fst (readcb c w) = map frame_id fs \<and> input_buf (fst (snd (readcb c w))) = pre"
  using assms
proof (induction fs arbitrary: c w)
  case Nil
  then show ?case by (simp add: readcb_stops)
next
  case (Cons f fs)
  from Cons.prems have f: "is_frame f" and buf: "input_buf c = f @ (concat fs @ pre)"
    by simp_all
  let ?c = "c\<lparr>input_buf := concat fs @ pre\<rparr>"
  let ?w = "report_rtt c (frame_id f) w"
  have IH: "fst (readcb ?c ?w) = map frame_id fs \<and> input_buf (fst (snd (readcb ?c ?w))) = pre"
    using Cons.prems by (intro Cons.IH) simp_all
  show ?case
  proof (cases "readcb ?c ?w")
    case (fields qids c'' w'')
    with IH show ?thesis
      by (simp add: readcb_frame_first [OF f buf])
  qed
qed


text \<open>
  C1. The decoder consumes only complete frames. With fewer than 4 bytes buffered it
  yields nothing and consumes nothing; with the length field \<open>L\<close> readable but fewer
  than \<open>L + 2\<close> bytes buffered it yields nothing and consumes nothing; otherwise it
  removes exactly \<open>L + 2\<close> bytes, yields the identifier read from bytes 2-3, and goes
  on with the rest. So a buffer holding \<open>n\<close> complete frames yields the \<open>n\<close>
  identifiers in buffer order in one call and is left empty, and a frame delivered in
  two parts yields nothing on the first call (which leaves connection and world as they
  were) and exactly its identifier on the second.
\<close>

theorem readcb_consumes_complete_frames:
  "(length (input_buf c) < 4 \<longrightarrow> readcb c w = ([], c, w)) \<and>
   (4 \<le> length (input_buf c) \<and>
    length (input_buf c) < unat (DO_NTOHS (input_buf c) 0) + 2 \<longrightarrow>
      readcb c w = ([], c, w)) \<and>
   (4 \<le> length (input_buf c) \<and>
    unat (DO_NTOHS (input_buf c) 0) + 2 \<le> length (input_buf c) \<longrightarrow>
      readcb c w =
        (case readcb
                (c\<lparr>input_buf := drop (unat (DO_NTOHS (input_buf c) 0) + 2) (input_buf c)\<rparr>)
                (report_rtt c (DO_NTOHS (input_buf c) 2) w)
         of (qids, c'', w'') \<Rightarrow> (DO_NTOHS (input_buf c) 2 # qids, c'', w''))) \<and>
   ((\<forall>f \<in> set fs. is_frame f) \<and> input_buf c = concat fs \<longrightarrow>
      fst (readcb c w) = map frame_id fs \<and> input_buf (fst (snd (readcb c w))) = []) \<and>
   (is_frame (pre @ post) \<and> post \<noteq> [] \<and> input_buf c = pre \<longrightarrow>
      readcb c w = ([], c, w) \<and>
      fst (readcb (c\<lparr>input_buf := input_buf c @ post\<rparr>) w') = [frame_id (pre @ post)] \<and>
      input_buf (fst (snd (readcb (c\<lparr>input_buf := input_buf c @ post\<rparr>) w'))) = [])"
proof (intro conjI impI)
  assume "length (input_buf c) < 4"
  then show "readcb c w = ([], c, w)"
    by (rule readcb_short)
next
  assume "4 \<le> length (input_buf c) \<and>
          length (input_buf c) < unat (DO_NTOHS (input_buf c) 0) + 2"
  then show "readcb c w = ([], c, w)"
    by (intro readcb_incomplete) simp_all
next
  assume "4 \<le> length (input_buf c) \<and>
          unat (DO_NTOHS (input_buf c) 0) + 2 \<le> length (input_buf c)"
  then show "readcb c w =
        (case readcb
                (c\<lparr>input_buf := drop (unat (DO_NTOHS (input_buf c) 0) + 2) (input_buf c)\<rparr>)
                (report_rtt c (DO_NTOHS (input_buf c) 2) w)
         of (qids, c'', w'') \<Rightarrow> (DO_NTOHS (input_buf c) 2 # qids, c'', w''))"
    by (intro readcb_complete) simp_all
next
  assume a: "(\<forall>f \<in> set fs. is_frame f) \<and> input_buf c = concat fs"
  have "stops []"
    by (simp add: stops_def)
  with a have "fst (readcb c w) = map frame_id fs \<and> input_buf (fst (snd (readcb c w))) = []"
    by (intro readcb_frames) simp_all
  then show "fst (readcb c w) = map frame_id fs"
    and "input_buf (fst (snd (readcb c w))) = []"
    by simp_all
next
  assume a: "is_frame (pre @ post) \<and> post \<noteq> [] \<and> input_buf c = pre"
  then have "stops pre"
    by (intro strict_prefix_stops [of "pre @ post" pre post]) simp_all
  with a show "readcb c w = ([], c, w)"
    by (intro readcb_stops) simp
  let ?c = "c\<lparr>input_buf := input_buf c @ post\<rparr>"
  have "stops []"
    by (simp add: stops_def)
  with a have "fst (readcb ?c w') = map frame_id [pre @ post] \<and>
               input_buf (fst (snd (readcb ?c w'))) = []"
    by (intro readcb_frames) simp_all
  then show "fst (readcb ?c w') = [frame_id (pre @ post)]"
    and "input_buf (fst (snd (readcb ?c w'))) = []"
    by simp_all
qed

theorem readcb_consumes_complete_frames_witness:
  "readcb (ex_conn\<lparr>input_buf := [0, 2, 0]\<rparr>) ex_world
     = ([], ex_conn\<lparr>input_buf := [0, 2, 0]\<rparr>, ex_world) \<and>
   readcb (ex_conn\<lparr>input_buf := [0, 3, 1, 2]\<rparr>) ex_world
     = ([], ex_conn\<lparr>input_buf := [0, 3, 1, 2]\<rparr>, ex_world) \<and>
   fst (readcb (ex_conn\<lparr>input_buf := [0, 2, 0, 7, 0, 3, 1, 2, 9]\<rparr>) ex_world) = [7, 258] \<and>
   input_buf (fst (snd (readcb (ex_conn\<lparr>input_buf := [0, 2, 0, 7, 0, 3, 1, 2, 9]\<rparr>) ex_world))) = [] \<and>
   fst (readcb (ex_conn\<lparr>input_buf := [0, 3, 1, 2] @ [9]\<rparr>) ex_world) = [258]"
  using
    readcb_consumes_complete_frames
      [of "ex_conn\<lparr>input_buf := [0, 2, 0]\<rparr>" ex_world "[]" "[]" "[]" ex_world]
    readcb_consumes_complete_frames
      [of "ex_conn\<lparr>input_buf := [0, 3, 1, 2]\<rparr>" ex_world "[]" "[0, 3, 1, 2]" "[9]" ex_world]
    readcb_consumes_complete_frames
      [of "ex_conn\<lparr>input_buf := [0, 2, 0, 7, 0, 3, 1, 2, 9]\<rparr>" ex_world
          "[[0, 2, 0, 7], [0, 3, 1, 2, 9]]" "[]" "[]" ex_world]
  by (simp add: is_frame_def frame_id_def DO_NTOHS_def ex_conn_def readcb.simps
        readcb_step_def report_rtt_def Let_def)

section \<open>Ramp-up and scheduling\<close>

lemma ramp_done: "\<not> conn < nb \<Longrightarrow> ramp att nb conn bufevents = (conn, bufevents, [])"
  by (subst ramp.simps) simp

lemma ramp_fails:
  "conn < nb \<Longrightarrow> att conn \<noteq> Connected \<Longrightarrow>
   ramp att nb conn bufevents = (conn, bufevents[conn := None], [conn])"
  by (subst ramp.simps) (simp split: attempt.splits)

lemma ramp_Connected:
  "conn < nb \<Longrightarrow> att conn = Connected \<Longrightarrow>
   ramp att nb conn bufevents =
     (fst (ramp att nb (Suc conn) (bufevents[conn := Some conn])),
      fst (snd (ramp att nb (Suc conn) (bufevents[conn := Some conn]))),
      conn # snd (snd (ramp att nb (Suc conn) (bufevents[conn := Some conn]))))"
  by (subst ramp.simps) (simp split: prod.splits)

lemma ramp_length: "length (fst (snd (ramp att nb conn bufevents))) = length bufevents"
proof (induction att nb conn bufevents rule: ramp.induct)
  case (1 att nb conn bufevents)
  show ?case
  proof (cases "conn < nb")
    case False
    then show ?thesis by (simp add: ramp_done)
  next
    case True
    show ?thesis
    proof (cases "att conn = Connected")
      case True
      with \<open>conn < nb\<close> "1.IH" show ?thesis
        by (simp add: ramp_Connected)
    next
      case False
      with \<open>conn < nb\<close> show ?thesis
        by (simp add: ramp_fails)
    qed
  qed
qed

lemma ramp_below:
  "j < conn \<Longrightarrow> fst (snd (ramp att nb conn bufevents)) ! j = bufevents ! j"
proof (induction att nb conn bufevents rule: ramp.induct)
  case (1 att nb conn bufevents)
  show ?case
  proof (cases "conn < nb")
    case False
    then show ?thesis by (simp add: ramp_done)
  next
    case True
    show ?thesis
    proof (cases "att conn = Connected")
      case True
      with \<open>conn < nb\<close> "1.IH" "1.prems" show ?thesis
        by (simp add: ramp_Connected)
    next
      case False
      with \<open>conn < nb\<close> "1.prems" show ?thesis
        by (simp add: ramp_fails)
    qed
  qed
qed

text \<open>Ramp-up when the first failure is at index \<open>m\<close>.\<close>

lemma ramp_fail:
  assumes "conn \<le> m" and "m < nb" and "att m \<noteq> Connected"
    and "\<forall>j. conn \<le> j \<and> j < m \<longrightarrow> att j = Connected"
    and "length bufevents = nb"
  shows "fst (ramp att nb conn bufevents) = m \<and>
         snd (snd (ramp att nb conn bufevents)) = [conn..<Suc m] \<and>
         fst (snd (ramp att nb conn bufevents)) ! m = None \<and>
         (\<forall>j. conn \<le> j \<and> j < m \<longrightarrow> fst (snd (ramp att nb conn bufevents)) ! j = Some j)"
  using assms
proof (induction att nb conn bufevents rule: ramp.induct)
  case (1 att nb conn bufevents)
  show ?case
  proof (cases "conn = m")
    case True
    with "1.prems" show ?thesis
      by (auto simp: ramp_fails)
  next
    case False
    with "1.prems" have lt: "conn < m" and c: "att conn = Connected" and cn: "conn < nb"
      by auto
    let ?b = "bufevents[conn := Some conn]"
    have IH: "fst (ramp att nb (Suc conn) ?b) = m \<and>
         snd (snd (ramp att nb (Suc conn) ?b)) = [Suc conn..<Suc m] \<and>
         fst (snd (ramp att nb (Suc conn) ?b)) ! m = None \<and>
         (\<forall>j. Suc conn \<le> j \<and> j < m \<longrightarrow> fst (snd (ramp att nb (Suc conn) ?b)) ! j = Some j)"
      using "1.prems" lt by (intro "1.IH" [OF cn c]) auto
    have below: "fst (snd (ramp att nb (Suc conn) ?b)) ! conn = Some conn"
      using "1.prems" cn by (simp add: ramp_below)
    have upt: "[conn..<Suc m] = conn # [Suc conn..<Suc m]"
      using lt by (simp add: upt_conv_Cons)
    note eq = ramp_Connected [of conn nb att bufevents, OF cn c]
    have A: "fst (ramp att nb conn bufevents) = m"
      using IH by (simp add: eq)
    have B: "snd (snd (ramp att nb conn bufevents)) = [conn..<Suc m]"
      using IH by (simp only: eq snd_conv upt)
    have C: "fst (snd (ramp att nb conn bufevents)) ! m = None"
      using IH by (simp add: eq)
    have D: "\<forall>j. conn \<le> j \<and> j < m \<longrightarrow> fst (snd (ramp att nb conn bufevents)) ! j = Some j"
    proof (intro allI impI)
      fix j
      assume "conn \<le> j \<and> j < m"
      then consider "j = conn" | "Suc conn \<le> j \<and> j < m"
        by linarith
      then show "fst (snd (ramp att nb conn bufevents)) ! j = Some j"
      proof cases
        case 1
        with below show ?thesis by (simp add: eq)
      next
        case 2
        with IH show ?thesis by (simp add: eq)
      qed
    qed
    from A B C D show ?thesis
      by simp
  qed
qed

lemma ramp_all:
  assumes "conn \<le> nb"
    and "\<forall>j. conn \<le> j \<and> j < nb \<longrightarrow> att j = Connected"
    and "length bufevents = nb"
  shows "fst (ramp att nb conn bufevents) = nb \<and>
         snd (snd (ramp att nb conn bufevents)) = [conn..<nb] \<and>
         (\<forall>j. conn \<le> j \<and> j < nb \<longrightarrow> fst (snd (ramp att nb conn bufevents)) ! j = Some j)"
  using assms
proof (induction att nb conn bufevents rule: ramp.induct)
  case (1 att nb conn bufevents)
  show ?case
  proof (cases "conn = nb")
    case True
    then show ?thesis
      by (auto simp: ramp_done)
  next
    case False
    with "1.prems" have cn: "conn < nb" and c: "att conn = Connected"
      by auto
    let ?b = "bufevents[conn := Some conn]"
    have IH: "fst (ramp att nb (Suc conn) ?b) = nb \<and>
         snd (snd (ramp att nb (Suc conn) ?b)) = [Suc conn..<nb] \<and>
         (\<forall>j. Suc conn \<le> j \<and> j < nb \<longrightarrow> fst (snd (ramp att nb (Suc conn) ?b)) ! j = Some j)"
      using "1.prems" cn by (intro "1.IH" [OF cn c]) auto
    have below: "fst (snd (ramp att nb (Suc conn) ?b)) ! conn = Some conn"
      using "1.prems" cn by (simp add: ramp_below)
    have upt: "[conn..<nb] = conn # [Suc conn..<nb]"
      using cn by (simp add: upt_conv_Cons)
    note eq = ramp_Connected [of conn nb att bufevents, OF cn c]
    have A: "fst (ramp att nb conn bufevents) = nb"
      using IH by (simp add: eq)
    have B: "snd (snd (ramp att nb conn bufevents)) = [conn..<nb]"
      using IH by (simp only: eq snd_conv upt)
    have D: "\<forall>j. conn \<le> j \<and> j < nb \<longrightarrow> fst (snd (ramp att nb conn bufevents)) ! j = Some j"
    proof (intro allI impI)
      fix j
      assume "conn \<le> j \<and> j < nb"
      then consider "j = conn" | "Suc conn \<le> j \<and> j < nb"
        by linarith
      then show "fst (snd (ramp att nb conn bufevents)) ! j = Some j"
      proof cases
        case 1
        with below show ?thesis by (simp add: eq)
      next
        case 2
        with IH show ?thesis by (simp add: eq)
      qed
    qed
    from A B D show ?thesis
      by simp
  qed
qed


lemma schedule_stop:
  "\<not> (conn < nb \<and> bufevents ! conn \<noteq> None) \<Longrightarrow>
   schedule rnd wi nb bufevents conn g setups = ([], setups)"
  by (subst schedule.simps) auto

lemma schedule_go:
  "conn < nb \<Longrightarrow> bufevents ! conn \<noteq> None \<Longrightarrow>
   schedule rnd wi nb bufevents conn g setups =
     ((conn, initial_timeout wi (fst (rnd g))) #
        fst (schedule rnd wi nb bufevents (Suc conn) (snd (rnd g))
              (setups[conn := (setups ! conn)
                 \<lparr>input_buf := [], output_buf := [], interval := wi, query_id := 0\<rparr>])),
      snd (schedule rnd wi nb bufevents (Suc conn) (snd (rnd g))
              (setups[conn := (setups ! conn)
                 \<lparr>input_buf := [], output_buf := [], interval := wi, query_id := 0\<rparr>])))"
  by (subst schedule.simps) (simp add: Let_def split: prod.splits)

lemma schedule_length:
  "length (snd (schedule rnd wi nb bufevents conn g setups)) = length setups"
proof (induction rnd wi nb bufevents conn g setups rule: schedule.induct)
  case (1 rnd wi nb bufevents conn g setups)
  show ?case
  proof (cases "conn < nb \<and> bufevents ! conn \<noteq> None")
    case False
    then show ?thesis by (simp add: schedule_stop)
  next
    case True
    then have a: "conn < nb" and b: "bufevents ! conn \<noteq> None"
      by simp_all
    from "1.IH" [OF True refl refl] show ?thesis
      by (simp add: schedule_go [OF a b])
  qed
qed

lemma schedule_below:
  "j < conn \<Longrightarrow> snd (schedule rnd wi nb bufevents conn g setups) ! j = setups ! j"
proof (induction rnd wi nb bufevents conn g setups rule: schedule.induct)
  case (1 rnd wi nb bufevents conn g setups)
  show ?case
  proof (cases "conn < nb \<and> bufevents ! conn \<noteq> None")
    case False
    then show ?thesis by (simp add: schedule_stop)
  next
    case True
    then have a: "conn < nb" and b: "bufevents ! conn \<noteq> None"
      by simp_all
    from "1.IH" [OF True refl refl] "1.prems" show ?thesis
      by (simp add: schedule_go [OF a b])
  qed
qed

text \<open>The scheduling loop over an array whose entries from \<open>conn\<close> up to \<open>m\<close> are
  live, where \<open>m\<close> is the end of the array or a \<open>NULL\<close> entry.\<close>

lemma schedule_live:
  assumes "conn \<le> m" and "m \<le> nb"
    and "\<forall>j. conn \<le> j \<and> j < m \<longrightarrow> bufevents ! j \<noteq> None"
    and "m = nb \<or> bufevents ! m = None"
    and "length setups = nb"
  shows "fst (schedule rnd wi nb bufevents conn g setups) =
           zip [conn..<m] (delays rnd wi g (m - conn)) \<and>
         (\<forall>j. conn \<le> j \<and> j < m \<longrightarrow>
            snd (schedule rnd wi nb bufevents conn g setups) ! j =
              (setups ! j)\<lparr>input_buf := [], output_buf := [], interval := wi, query_id := 0\<rparr>)"
  using assms
proof (induction rnd wi nb bufevents conn g setups rule: schedule.induct)
  case (1 rnd wi nb bufevents conn g setups)
  show ?case
  proof (cases "conn = m")
    case True
    with "1.prems" have "\<not> (conn < nb \<and> bufevents ! conn \<noteq> None)"
      by auto
    with True show ?thesis
      by (auto simp: schedule_stop)
  next
    case False
    with "1.prems" have lt: "conn < m" and a: "conn < nb" and b: "bufevents ! conn \<noteq> None"
      by auto
    let ?s = "setups[conn := (setups ! conn)
                 \<lparr>input_buf := [], output_buf := [], interval := wi, query_id := 0\<rparr>]"
    let ?r = "schedule rnd wi nb bufevents (Suc conn) (snd (rnd g)) ?s"
    have IH: "fst ?r = zip [Suc conn..<m] (delays rnd wi (snd (rnd g)) (m - Suc conn)) \<and>
         (\<forall>j. Suc conn \<le> j \<and> j < m \<longrightarrow>
            snd ?r ! j =
              (?s ! j)\<lparr>input_buf := [], output_buf := [], interval := wi, query_id := 0\<rparr>)"
      using "1.prems" lt "1.IH" [of "fst (rnd g)" ?s] a b by auto
    note eq = schedule_go [of conn nb bufevents rnd wi g setups, OF a b]
    have upt: "[conn..<m] = conn # [Suc conn..<m]"
      using lt by (simp add: upt_conv_Cons)
    have d: "delays rnd wi g (m - conn) =
             initial_timeout wi (fst (rnd g)) # delays rnd wi (snd (rnd g)) (m - Suc conn)"
      using lt by (simp add: Suc_diff_Suc [symmetric] del: Suc_diff_Suc)
    have A: "fst (schedule rnd wi nb bufevents conn g setups) =
           zip [conn..<m] (delays rnd wi g (m - conn))"
      using IH by (simp only: eq fst_conv upt d zip_Cons_Cons)
    have below: "snd ?r ! conn = ?s ! conn"
      by (simp add: schedule_below)
    have B: "\<forall>j. conn \<le> j \<and> j < m \<longrightarrow>
            snd (schedule rnd wi nb bufevents conn g setups) ! j =
              (setups ! j)\<lparr>input_buf := [], output_buf := [], interval := wi, query_id := 0\<rparr>"
    proof (intro allI impI)
      fix j
      assume "conn \<le> j \<and> j < m"
      then consider "j = conn" | "Suc conn \<le> j \<and> j < m"
        by linarith
      then show "snd (schedule rnd wi nb bufevents conn g setups) ! j =
              (setups ! j)\<lparr>input_buf := [], output_buf := [], interval := wi, query_id := 0\<rparr>"
      proof cases
        case 1
        with below "1.prems" a show ?thesis by (simp add: eq)
      next
        case 2
        with IH show ?thesis by (simp add: eq)
      qed
    qed
    from A B show ?thesis by simp
  qed
qed


lemma length_delays: "length (delays rnd wi g n) = n"
  by (induction n arbitrary: g) simp_all

lemma schedule_after_ramp_indices:
  assumes "m \<le> nb"
    and "\<forall>j. j < m \<longrightarrow> bufevents ! j \<noteq> None"
    and "m = nb \<or> bufevents ! m = None"
    and "length setups = nb"
  shows "map fst (fst (schedule rnd wi nb bufevents 0 g setups)) = [0..<m]"
  using schedule_live [of 0 m nb bufevents setups rnd wi g] assms
  by (simp add: length_delays)

text \<open>
  C6. If the \<open>k\<close>-th attempt (counting from 1, so array index \<open>k - 1\<close>) is the first to
  fail, at creating the bufferevent or at connecting it, the attempts made are exactly
  those for indices \<open>0\<close> to \<open>k - 1\<close>, and the scheduling loop hands exactly the
  connections \<open>0\<close> to \<open>k - 2\<close> to the write scheduler, whatever \<open>malloc\<close> left in the
  two arrays. If every attempt succeeds, all \<open>nb_conn\<close> connections are scheduled.
\<close>

theorem ramp_fail_fast:
  assumes "length bufevents = nb" and "length setups = nb"
  shows "(1 \<le> k \<and> k \<le> nb \<and> att (k - 1) \<noteq> Connected \<and> (\<forall>j. j < k - 1 \<longrightarrow> att j = Connected) \<longrightarrow>
            snd (snd (ramp att nb 0 bufevents)) = [0..<k] \<and>
            fst (ramp att nb 0 bufevents) = k - 1 \<and>
            map fst (fst (schedule rnd wi nb (fst (snd (ramp att nb 0 bufevents))) 0 g setups))
              = [0..<k - 1]) \<and>
         ((\<forall>j. j < nb \<longrightarrow> att j = Connected) \<longrightarrow>
            snd (snd (ramp att nb 0 bufevents)) = [0..<nb] \<and>
            fst (ramp att nb 0 bufevents) = nb \<and>
            map fst (fst (schedule rnd wi nb (fst (snd (ramp att nb 0 bufevents))) 0 g setups))
              = [0..<nb])"
proof (intro conjI impI)
  assume h: "1 \<le> k \<and> k \<le> nb \<and> att (k - 1) \<noteq> Connected \<and>
             (\<forall>j. j < k - 1 \<longrightarrow> att j = Connected)"
  let ?b = "fst (snd (ramp att nb 0 bufevents))"
  have r: "fst (ramp att nb 0 bufevents) = k - 1 \<and>
         snd (snd (ramp att nb 0 bufevents)) = [0..<Suc (k - 1)] \<and>
         ?b ! (k - 1) = None \<and>
         (\<forall>j. 0 \<le> j \<and> j < k - 1 \<longrightarrow> ?b ! j = Some j)"
    using h assms(1) by (intro ramp_fail) auto
  from r h show "snd (snd (ramp att nb 0 bufevents)) = [0..<k]"
    by simp
  from r show "fst (ramp att nb 0 bufevents) = k - 1"
    by simp
  show "map fst (fst (schedule rnd wi nb ?b 0 g setups)) = [0..<k - 1]"
    using r h assms(2) by (intro schedule_after_ramp_indices) auto
next
  assume h: "\<forall>j. j < nb \<longrightarrow> att j = Connected"
  let ?b = "fst (snd (ramp att nb 0 bufevents))"
  have r: "fst (ramp att nb 0 bufevents) = nb \<and>
         snd (snd (ramp att nb 0 bufevents)) = [0..<nb] \<and>
         (\<forall>j. 0 \<le> j \<and> j < nb \<longrightarrow> ?b ! j = Some j)"
    using h assms(1) by (intro ramp_all) auto
  from r show "snd (snd (ramp att nb 0 bufevents)) = [0..<nb]"
    and "fst (ramp att nb 0 bufevents) = nb"
    by simp_all
  show "map fst (fst (schedule rnd wi nb ?b 0 g setups)) = [0..<nb]"
    using r assms(2) by (intro schedule_after_ramp_indices) auto
qed

theorem ramp_fail_fast_witness:
  "snd (snd (ramp ex_att 4 0 (replicate 4 (Some 99)))) = [0, 1, 2] \<and>
   fst (ramp ex_att 4 0 (replicate 4 (Some 99))) = 2 \<and>
   map fst (fst (schedule ex_rnd \<lparr>tv_sec_us = 2, tv_usec = 1\<rparr> 4
                   (fst (snd (ramp ex_att 4 0 (replicate 4 (Some 99))))) 0 (ex_seed 42)
                   (replicate 4 ex_conn))) = [0, 1] \<and>
   snd (snd (ramp (\<lambda>j. Connected) 4 0 (replicate 4 None))) = [0, 1, 2, 3] \<and>
   map fst (fst (schedule ex_rnd \<lparr>tv_sec_us = 2, tv_usec = 1\<rparr> 4
                   (fst (snd (ramp (\<lambda>j. Connected) 4 0 (replicate 4 None)))) 0 (ex_seed 42)
                   (replicate 4 ex_conn))) = [0, 1, 2, 3]"
  using
    ramp_fail_fast [of "replicate 4 (Some 99)" 4 "replicate 4 ex_conn" 3 ex_att ex_rnd
                       "\<lparr>tv_sec_us = 2, tv_usec = 1\<rparr>" "ex_seed 42"]
    ramp_fail_fast [of "replicate 4 None" 4 "replicate 4 ex_conn" 0 "\<lambda>j. Connected" ex_rnd
                       "\<lparr>tv_sec_us = 2, tv_usec = 1\<rparr>" "ex_seed 42"]
  by (simp add: ex_att_def upt_rec)

section \<open>Sending: the request frame and the identifier\<close>

lemma data_ok_init: "data_ok data_init"
  by (simp add: data_ok_def data_init_def sizeof_data_def)

lemma data_ok_shape:
  assumes "data_ok d"
  shows "\<exists>x y. d = [0x00, 0x1d, x, y] @ drop 4 data_init"
proof -
  from assms have len: "length d = 31" and t2: "take 2 d = [0x00, 0x1d]"
    and d4: "drop 4 d = drop 4 data_init"
    by (simp_all add: data_ok_def sizeof_data_def data_init_def)
  define xs where "xs = take 2 (drop 2 d)"
  have "length xs = Suc (Suc 0)"
    using len by (simp add: xs_def)
  then obtain x y where "xs = [x, y]"
    by (auto simp: length_Suc_conv)
  then have xy: "take 2 (drop 2 d) = [x, y]"
    by (simp add: xs_def)
  have e1: "d = take 2 d @ drop 2 d"
    by simp
  have e2: "drop 2 d = take 2 (drop 2 d) @ drop 2 (drop 2 d)"
    by (rule append_take_drop_id [symmetric])
  have e3: "drop 2 (drop 2 d) = drop 4 d"
    by simp
  have "d = take 2 d @ take 2 (drop 2 d) @ drop 4 d"
    using e1 e2 e3 by metis
  then have "d = [0x00, 0x1d] @ [x, y] @ drop 4 data_init"
    by (simp only: t2 xy d4)
  then show ?thesis by auto
qed

lemma DO_HTONS_data:
  assumes "data_ok d"
  shows "DO_HTONS d 2 q = request_frame q"
proof -
  from data_ok_shape [OF assms] obtain x y where "d = [0x00, 0x1d, x, y] @ drop 4 data_init"
    by blast
  then show ?thesis
    by (simp add: DO_HTONS_def request_frame_def numeral_2_eq_2 numeral_3_eq_3)
qed

lemma length_request_frame: "length (request_frame q) = 31"
  by (simp add: request_frame_def data_init_def)

lemma data_ok_request_frame: "data_ok (request_frame q)"
  by (simp add: data_ok_def request_frame_def data_init_def sizeof_data_def)

lemma ntohs_htons:
  fixes q :: uint16_t
  shows "push_bit 8 (ucast (ucast (drop_bit 8 q) :: byte)) OR ucast (ucast q :: byte) = q"
  by (rule bit_word_eqI) (auto simp: bit_simps)

lemma nth_request_frame:
  "request_frame q ! 0 = 0x00" "request_frame q ! 1 = 0x1d" "request_frame q ! Suc 0 = 0x1d"
  "request_frame q ! 2 = ucast (drop_bit 8 q)" "request_frame q ! 3 = ucast q"
  by (simp_all add: request_frame_def nth_Cons')

lemma request_frame_fields:
  "DO_NTOHS (request_frame q) 0 = 29 \<and> DO_NTOHS (request_frame q) 2 = q"
proof
  show "DO_NTOHS (request_frame q) 0 = 29"
    by (simp add: DO_NTOHS_def nth_request_frame)
  have "DO_NTOHS (request_frame q) 2 =
        push_bit 8 (ucast (request_frame q ! 2)) OR ucast (request_frame q ! 3)"
    by (simp only: DO_NTOHS_def) simp
  then show "DO_NTOHS (request_frame q) 2 = q"
    by (simp only: nth_request_frame ntohs_htons)
qed

lemma writecb_frame:
  assumes "data_ok (data w)"
  shows "output_buf (fst (writecb c w)) = output_buf c @ request_frame (query_id c)"
    and "query_id (fst (writecb c w)) = query_id c + 1"
    and "data (snd (writecb c w)) = request_frame (query_id c)"
  using assms
  by (simp_all add: writecb_def Let_def DO_HTONS_data length_request_frame sizeof_data_def)

lemma writecb_other_fields:
  "input_buf (fst (writecb c w)) = input_buf c"
  "interval (fst (writecb c w)) = interval c"
  "query_timestamps (fst (writecb c w)) =
     (query_timestamps c)[unat (query_id c) mod MAX_QUERIES_IN_FLIGHT := clock w (clock_reads w)]"
  "clock (snd (writecb c w)) = clock w"
  "clock_reads (snd (writecb c w)) = Suc (clock_reads w)"
  "print_rtt (snd (writecb c w)) = print_rtt w"
  "stdout (snd (writecb c w)) = stdout w"
  by (simp_all add: writecb_def Let_def)


lemma run_Nil: "run err s [] = s"
  by (simp add: run_def)

lemma run_snoc: "run err s (evs @ [e]) = step err (run err s evs) e"
  by (simp add: run_def)

lemma sends_Nil: "sends i [] = 0"
  by (simp add: sends_def)

lemma sends_snoc: "sends i (evs @ [e]) = sends i evs + (if is_send i e then 1 else 0)"
  by (simp add: sends_def)

lemma report_rtt_fields:
  "data (report_rtt c q w) = data w"
  "clock (report_rtt c q w) = clock w"
  "print_rtt (report_rtt c q w) = print_rtt w"
  "clock_reads w \<le> clock_reads (report_rtt c q w)"
  by (simp_all add: report_rtt_def Let_def)

lemma readcb_step_fields:
  assumes "readcb_step c w = Some (q, c', w')"
  shows "output_buf c' = output_buf c" and "query_id c' = query_id c"
    and "query_timestamps c' = query_timestamps c" and "interval c' = interval c"
    and "w' = report_rtt c q w" and "q = DO_NTOHS (input_buf c) 2"
  using assms by (auto simp: readcb_step_def Let_def split: if_splits)

lemma setup_writecb_frame:
  assumes "data_ok (data w)"
  shows "output_buf (fst (setup_writecb b c w)) = output_buf c @ request_frame (query_id c)"
    and "query_id (fst (setup_writecb b c w)) = query_id c + 1"
    and "data (snd (setup_writecb b c w)) = request_frame (query_id c)"
  using assms by (simp_all add: setup_writecb_def writecb_frame)

lemma callback_data_ok:
  assumes "data_ok (data w)"
  shows "data_ok (data (snd (callback err ev c w)))"
proof (cases ev)
  case (Setup_fire b)
  with assms show ?thesis by (simp add: setup_writecb_frame data_ok_request_frame)
next
  case Write_fire
  with assms show ?thesis by (simp add: writecb_frame data_ok_request_frame)
next
  case (Arrive bs)
  with assms show ?thesis by simp
next
  case Decode
  show ?thesis
  proof (cases "readcb_step c w")
    case None
    with assms Decode show ?thesis by simp
  next
    case (Some r)
    obtain q c' w' where r: "r = (q, c', w')"
      by (cases r)
    from Some r have "w' = report_rtt c q w"
      by (simp add: readcb_step_fields(5))
    with assms Decode Some r show ?thesis
      by (simp add: report_rtt_fields)
  qed
next
  case (Bev_event events)
  with assms show ?thesis by (simp add: eventcb_def)
qed

lemma callback_conn:
  assumes "data_ok (data w)"
  shows "output_buf (fst (callback err ev c w)) =
           output_buf c @ (if is_send i (i, ev) then request_frame (query_id c) else [])"
    and "query_id (fst (callback err ev c w)) =
           query_id c + (if is_send i (i, ev) then 1 else 0)"
proof -
  show "output_buf (fst (callback err ev c w)) =
           output_buf c @ (if is_send i (i, ev) then request_frame (query_id c) else [])"
    using assms
    by (cases ev)
      (auto simp: is_send_def setup_writecb_frame writecb_frame readcb_step_fields
            split: option.splits)
  show "query_id (fst (callback err ev c w)) =
           query_id c + (if is_send i (i, ev) then 1 else 0)"
    using assms
    by (cases ev)
      (auto simp: is_send_def setup_writecb_frame writecb_frame readcb_step_fields
            split: option.splits)
qed

lemma length_step: "length (fst (step err s e)) = length (fst s)"
  by (simp add: step_def Let_def)

lemma length_run: "length (fst (run err s evs)) = length (fst s)"
  by (induction evs rule: rev_induct) (simp_all add: run_Nil run_snoc length_step)

lemma step_data_ok:
  assumes "data_ok (data (snd s))"
  shows "data_ok (data (snd (step err s e)))"
  using assms by (simp add: step_def Let_def callback_data_ok)

lemma run_data_ok:
  assumes "data_ok (data (snd s))"
  shows "data_ok (data (snd (run err s evs)))"
  using assms
  by (induction evs rule: rev_induct) (simp_all add: run_Nil run_snoc step_data_ok)

lemma is_send_other: "fst e \<noteq> i \<Longrightarrow> \<not> is_send i e"
  by (simp add: is_send_def)

lemma step_conn:
  assumes "i < length (fst s)" and "data_ok (data (snd s))"
  shows "output_buf (fst (step err s e) ! i) =
           output_buf (fst s ! i) @
             (if is_send i e then request_frame (query_id (fst s ! i)) else [])"
    and "query_id (fst (step err s e) ! i) =
           query_id (fst s ! i) + (if is_send i e then 1 else 0)"
proof -
  obtain j ev where e: "e = (j, ev)"
    by (cases e)
  show "output_buf (fst (step err s e) ! i) =
           output_buf (fst s ! i) @
             (if is_send i e then request_frame (query_id (fst s ! i)) else [])"
  proof (cases "j = i")
    case True
    with assms e show ?thesis
      by (simp add: step_def Let_def callback_conn(1) [where i = i])
  next
    case False
    with assms e show ?thesis
      by (simp add: step_def Let_def is_send_other)
  qed
  show "query_id (fst (step err s e) ! i) =
           query_id (fst s ! i) + (if is_send i e then 1 else 0)"
  proof (cases "j = i")
    case True
    with assms e show ?thesis
      by (simp add: step_def Let_def callback_conn(2) [where i = i])
  next
    case False
    with assms e show ?thesis
      by (simp add: step_def Let_def is_send_other)
  qed
qed

lemma run_conn:
  assumes "i < length (fst s)" and "data_ok (data (snd s))"
  shows "output_buf (fst (run err s evs) ! i) =
           output_buf (fst s ! i) @
             concat (map (\<lambda>k. request_frame (query_id (fst s ! i) + of_nat k)) [0..<sends i evs]) \<and>
         query_id (fst (run err s evs) ! i) = query_id (fst s ! i) + of_nat (sends i evs)"
proof (induction evs rule: rev_induct)
  case Nil
  show ?case by (simp add: run_Nil sends_Nil)
next
  case (snoc e evs)
  let ?s = "run err s evs"
  have len: "i < length (fst ?s)"
    using assms(1) by (simp add: length_run)
  have ok: "data_ok (data (snd ?s))"
    using assms(2) by (rule run_data_ok)
  show ?case
    using snoc.IH
    by (simp add: run_snoc sends_snoc step_conn [OF len ok])
qed


lemma schedule_scheduled:
  assumes "length setups = nb"
    and "i \<in> fst ` set (fst (schedule rnd wi nb bufevents conn g setups))"
  shows "snd (schedule rnd wi nb bufevents conn g setups) ! i =
           (setups ! i)\<lparr>input_buf := [], output_buf := [], interval := wi, query_id := 0\<rparr>"
  using assms
proof (induction rnd wi nb bufevents conn g setups rule: schedule.induct)
  case (1 rnd wi nb bufevents conn g setups)
  show ?case
  proof (cases "conn < nb \<and> bufevents ! conn \<noteq> None")
    case False
    with "1.prems" show ?thesis by (simp add: schedule_stop)
  next
    case True
    then have a: "conn < nb" and b: "bufevents ! conn \<noteq> None"
      by simp_all
    let ?s = "setups[conn := (setups ! conn)
                 \<lparr>input_buf := [], output_buf := [], interval := wi, query_id := 0\<rparr>]"
    let ?r = "schedule rnd wi nb bufevents (Suc conn) (snd (rnd g)) ?s"
    note eq = schedule_go [of conn nb bufevents rnd wi g setups, OF a b]
    from "1.prems"(2) consider "i = conn" | "i \<in> fst ` set (fst ?r)"
      by (auto simp: eq)
    then show ?thesis
    proof cases
      case 1
      have "snd ?r ! conn = ?s ! conn"
        by (simp add: schedule_below)
      with 1 a "1.prems"(1) show ?thesis
        by (simp add: eq)
    next
      case 2
      have "snd ?r ! i =
           (?s ! i)\<lparr>input_buf := [], output_buf := [], interval := wi, query_id := 0\<rparr>"
        using "1.prems"(1) 2 by (intro "1.IH" [OF True refl refl]) simp_all
      then show ?thesis
        by (cases "i = conn") (simp_all add: eq a "1.prems"(1))
    qed
  qed
qed

text \<open>
  C5. A call of \<open>writecb\<close> appends to the output buffer exactly one frame: 31 bytes,
  bytes 0-1 the big-endian length 29, bytes 2-3 the big-endian current identifier,
  bytes 4-30 the fixed payload of the initializer; it then increments the identifier.
  The scheduling loop starts every scheduled connection at identifier 0 with an empty
  output buffer, so after any run of the event loop the output of a connection is the
  frames with identifiers \<open>0, 1, ...\<close> in order, one per send on it, the identifier of
  the \<open>k\<close>-th being \<open>k mod 65536\<close>. The static array is shared by all connections;
  \<open>data_ok\<close> is the invariant that makes the frame independent of earlier calls.
\<close>

theorem writecb_emits_request_frame:
  "(data_ok (data w) \<longrightarrow>
      output_buf (fst (writecb c w)) = output_buf c @ request_frame (query_id c) \<and>
      query_id (fst (writecb c w)) = query_id c + 1 \<and>
      data_ok (data (snd (writecb c w)))) \<and>
   length (request_frame q) = 31 \<and>
   take 2 (request_frame q) = [0x00, 0x1d] \<and>
   DO_NTOHS (request_frame q) 0 = 29 \<and>
   DO_NTOHS (request_frame q) 2 = q \<and>
   drop 4 (request_frame q) = drop 4 data_init \<and>
   (length setups = nb \<and> i \<in> fst ` set (fst (schedule rnd wi nb bufevents 0 g setups)) \<longrightarrow>
      query_id (snd (schedule rnd wi nb bufevents 0 g setups) ! i) = 0 \<and>
      output_buf (snd (schedule rnd wi nb bufevents 0 g setups) ! i) = []) \<and>
   (j < length (fst s) \<and> data_ok (data (snd s)) \<and> query_id (fst s ! j) = 0 \<longrightarrow>
      output_buf (fst (run err s evs) ! j) =
        output_buf (fst s ! j) @ concat (map (\<lambda>k. request_frame (of_nat k)) [0..<sends j evs]) \<and>
      query_id (fst (run err s evs) ! j) = of_nat (sends j evs)) \<and>
   unat (of_nat k :: uint16_t) = k mod 65536"
proof (intro conjI impI)
  assume ok: "data_ok (data w)"
  then show "output_buf (fst (writecb c w)) = output_buf c @ request_frame (query_id c)"
    and "query_id (fst (writecb c w)) = query_id c + 1"
    by (rule writecb_frame)+
  from ok show "data_ok (data (snd (writecb c w)))"
    by (simp add: writecb_frame data_ok_request_frame)
next
  show "length (request_frame q) = 31"
    by (rule length_request_frame)
  show "take 2 (request_frame q) = [0x00, 0x1d]"
    by (simp add: request_frame_def)
  show "DO_NTOHS (request_frame q) 0 = 29" and "DO_NTOHS (request_frame q) 2 = q"
    using request_frame_fields [of q] by simp_all
  show "drop 4 (request_frame q) = drop 4 data_init"
    by (simp add: request_frame_def)
next
  assume h: "length setups = nb \<and>
             i \<in> fst ` set (fst (schedule rnd wi nb bufevents 0 g setups))"
  then have "snd (schedule rnd wi nb bufevents 0 g setups) ! i =
           (setups ! i)\<lparr>input_buf := [], output_buf := [], interval := wi, query_id := 0\<rparr>"
    by (intro schedule_scheduled) simp_all
  then show "query_id (snd (schedule rnd wi nb bufevents 0 g setups) ! i) = 0"
    and "output_buf (snd (schedule rnd wi nb bufevents 0 g setups) ! i) = []"
    by simp_all
next
  assume h: "j < length (fst s) \<and> data_ok (data (snd s)) \<and> query_id (fst s ! j) = 0"
  then have "output_buf (fst (run err s evs) ! j) =
           output_buf (fst s ! j) @
             concat (map (\<lambda>k. request_frame (query_id (fst s ! j) + of_nat k)) [0..<sends j evs]) \<and>
         query_id (fst (run err s evs) ! j) = query_id (fst s ! j) + of_nat (sends j evs)"
    by (intro run_conn) simp_all
  with h show "output_buf (fst (run err s evs) ! j) =
        output_buf (fst s ! j) @ concat (map (\<lambda>k. request_frame (of_nat k)) [0..<sends j evs])"
    and "query_id (fst (run err s evs) ! j) = of_nat (sends j evs)"
    by simp_all
next
  show "unat (of_nat k :: uint16_t) = k mod 65536"
    by (simp add: unat_of_nat)
qed

theorem writecb_emits_request_frame_witness:
  "data_ok (data ex_world) \<and>
   output_buf (fst (writecb (ex_conn\<lparr>query_id := 258\<rparr>) ex_world)) = request_frame 258 \<and>
   take 4 (request_frame 258) = [0, 29, 1, 2] \<and>
   query_id (snd (schedule ex_rnd \<lparr>tv_sec_us = 2, tv_usec = 1\<rparr> 2 [Some 0, Some 1] 0 (ex_seed 42)
               [ex_conn\<lparr>query_id := 77\<rparr>, ex_conn\<lparr>query_id := 78, output_buf := [1, 2, 3]\<rparr>]) ! 1) = 0 \<and>
   output_buf (fst (run 32 ([ex_conn, ex_conn], ex_world)
                      [(0, Setup_fire True), (1, Setup_fire True), (0, Write_fire),
                       (0, Bev_event 32), (0, Arrive [0, 2, 0, 0]), (0, Decode),
                       (0, Write_fire)]) ! 0)
     = request_frame 0 @ request_frame 1 @ request_frame 2 \<and>
   unat (of_nat 65537 :: uint16_t) = 1"
  using writecb_emits_request_frame
    [where w = ex_world and c = "ex_conn\<lparr>query_id := 258\<rparr>" and q = 258
       and setups = "[ex_conn\<lparr>query_id := 77\<rparr>, ex_conn\<lparr>query_id := 78, output_buf := [1, 2, 3]\<rparr>]"
       and nb = 2 and i = 1 and rnd = ex_rnd and wi = "\<lparr>tv_sec_us = 2, tv_usec = 1\<rparr>"
       and bufevents = "[Some 0, Some 1]" and g = "ex_seed 42" and j = 0
       and s = "([ex_conn, ex_conn], ex_world)" and err = 32
       and evs = "[(0, Setup_fire True), (1, Setup_fire True), (0, Write_fire),
                       (0, Bev_event 32), (0, Arrive [0, 2, 0, 0]), (0, Decode),
                       (0, Write_fire)]"
       and k = 65537]
  by (simp add: data_ok_def ex_world_def ex_conn_def data_init_def sizeof_data_def sends_def
        is_send_def schedule.simps request_frame_def)

section \<open>The write interval and the initial delay\<close>

lemma sint_small:
  fixes w :: ulong
  assumes "unat w < 2 ^ 63"
  shows "sint w = int (unat w)"
proof -
  have u: "uint w = int (unat w)"
    by simp
  have lt: "uint w < 2 ^ 63"
    using assms unfolding u by (metis of_nat_less_iff of_nat_numeral of_nat_power)
  have "sint w = signed_take_bit 63 (uint w)"
    by (simp add: sint_uint)
  also have "\<dots> = uint w"
  proof (rule signed_take_bit_int_eq_self)
    have "(0::int) \<le> uint w"
      by simp
    moreover have "- (2 ^ 63) \<le> (0::int)"
      by simp
    ultimately show "- (2 ^ 63) \<le> uint w"
      by (rule order_trans [rotated])
    show "uint w < 2 ^ 63"
      by (rule lt)
  qed
  finally show ?thesis
    by simp
qed

lemma write_interval_no_overflow:
  assumes "rt \<noteq> 0" and "1000000 * unat nb < 2 ^ 64"
  shows "write_interval nb rt =
           \<lparr>tv_sec_us = int (unat nb div unat rt),
            tv_usec = max 1 (int ((1000000 * unat nb div unat rt) mod 1000000))\<rparr>"
proof -
  have m: "unat (1000000 * nb) = 1000000 * unat nb"
    using assms(2) by (simp add: unat_word_ariths)
  have q: "unat (nb div rt) = unat nb div unat rt"
    by (simp add: unat_div)
  have u: "unat (((1000000 * nb) div rt) mod 1000000) = (1000000 * unat nb div unat rt) mod 1000000"
    by (simp add: unat_mod unat_div m)
  have "unat nb div unat rt \<le> unat nb"
    by (rule div_le_dividend)
  also have "unat nb < 2 ^ 63"
    using assms(2) by simp
  finally have s1: "sint (nb div rt) = int (unat nb div unat rt)"
    using q by (simp add: sint_small)
  have "(1000000 * unat nb div unat rt) mod 1000000 < 2 ^ 63"
    by (rule less_trans [of _ 1000000]) simp_all
  then have s2: "sint (((1000000 * nb) div rt) mod 1000000) =
                 int ((1000000 * unat nb div unat rt) mod 1000000)"
    using u by (simp add: sint_small)
  show ?thesis
    unfolding write_interval_def Let_def s1 s2 by (simp add: max_def)
qed

lemma write_interval_usec_range:
  "1 \<le> tv_usec (write_interval nb rt) \<and> tv_usec (write_interval nb rt) < 1000000"
proof -
  let ?x = "((1000000 * nb) div rt) mod 1000000"
  have lt: "unat ?x < 1000000"
    by (simp add: unat_mod)
  then have eq: "sint ?x = int (unat ?x)"
    by (intro sint_small) simp
  from lt have "int (unat ?x) < 1000000"
    by linarith
  then show ?thesis
    unfolding write_interval_def Let_def eq by simp
qed


text \<open>
  C3, as the code computes it. For a connection count \<open>C > 0\<close> and a rate \<open>R > 0\<close> with
  \<open>1000000 * C < 2 ^ 64\<close>, the write interval is \<open>C div R\<close> seconds and
  \<open>(1000000 * C div R) mod 1000000\<close> microseconds, the microseconds raised to 1 when
  they would be 0. For every \<open>C\<close> and \<open>R\<close>, with no bound, the microsecond field is at
  least 1 and below 1000000 (a count or a rate of 0 does not reach lines 262-264: the
  validity check of line 255 returns first, see \<open>main_intervals\<close>). Beyond the bound the product wraps around in
  \<open>unsigned long\<close> and the formula over the integers no longer describes the result:
  for \<open>C = 18446744073710\<close> and \<open>R = 1\<close> the code computes 448384 microseconds where
  the formula gives 1.
\<close>

theorem write_interval_formula:
  "(nb \<noteq> 0 \<and> rt \<noteq> 0 \<and> 1000000 * unat nb < 2 ^ 64 \<longrightarrow>
      write_interval nb rt =
        \<lparr>tv_sec_us = int (unat nb div unat rt),
         tv_usec = max 1 (int ((1000000 * unat nb div unat rt) mod 1000000))\<rparr>) \<and>
   1 \<le> tv_usec (write_interval nb rt) \<and> tv_usec (write_interval nb rt) < 1000000"
proof (intro conjI impI)
  assume "nb \<noteq> 0 \<and> rt \<noteq> 0 \<and> 1000000 * unat nb < 2 ^ 64"
  then show "write_interval nb rt =
        \<lparr>tv_sec_us = int (unat nb div unat rt),
         tv_usec = max 1 (int ((1000000 * unat nb div unat rt) mod 1000000))\<rparr>"
    by (intro write_interval_no_overflow) simp_all
next
  show "1 \<le> tv_usec (write_interval nb rt)" and "tv_usec (write_interval nb rt) < 1000000"
    using write_interval_usec_range [of nb rt] by simp_all
qed

theorem write_interval_formula_witness:
  "(3 :: ulong) \<noteq> 0 \<and> (7 :: ulong) \<noteq> 0 \<and> 1000000 * unat (3 :: ulong) < 2 ^ 64 \<and>
   write_interval 3 7 = \<lparr>tv_sec_us = 0, tv_usec = 428571\<rparr> \<and>
   write_interval 4 2 = \<lparr>tv_sec_us = 2, tv_usec = 1\<rparr> \<and>
   1 \<le> tv_usec (write_interval 18446744073710 1)"
  using write_interval_formula [of 3 7] write_interval_formula [of 4 2]
    write_interval_formula [of 18446744073710 1]
  by simp

theorem write_interval_formula_counterexample:
  "tv_usec (write_interval 18446744073710 1) = 448384 \<and>
   max 1 (int ((1000000 * unat (18446744073710 :: ulong) div unat (1 :: ulong)) mod 1000000)) = 1"
  by (simp add: write_interval_def)

lemma smod_nonneg_pos:
  fixes r m :: int
  assumes "0 \<le> r" and "0 < m"
  shows "r smod m = r mod m"
  using assms by (cases "r = 0") (simp_all add: signed_modulo_int_def sgn_if)

text \<open>For an interval of fewer than \<open>9223372036854\<close> seconds the modulus of line 377
  is computed without leaving the range of \<open>long\<close>.\<close>

lemma modulus_exact:
  assumes "0 \<le> tv_sec_us wi" and "tv_sec_us wi < 9223372036854"
    and "1 \<le> tv_usec wi" and "tv_usec wi < 1000000"
  shows "to_long (to_long (to_long (1000000 * tv_sec_us wi) + tv_usec wi) + 1) = usecs wi + 1"
proof -
  have a: "to_long (1000000 * tv_sec_us wi) = 1000000 * tv_sec_us wi"
    using assms by (intro to_long_id) (simp add: in_long_def)
  have b: "to_long (1000000 * tv_sec_us wi + tv_usec wi) = 1000000 * tv_sec_us wi + tv_usec wi"
    using assms by (intro to_long_id) (simp add: in_long_def)
  have c: "to_long (1000000 * tv_sec_us wi + tv_usec wi + 1) = 1000000 * tv_sec_us wi + tv_usec wi + 1"
    using assms by (intro to_long_id) (simp add: in_long_def)
  show ?thesis
    by (simp only: a b c usecs_def)
qed

lemma rand_usec_value:
  assumes "0 \<le> tv_sec_us wi" and "tv_sec_us wi < 9223372036854"
    and "1 \<le> tv_usec wi" and "tv_usec wi < 1000000" and "0 \<le> r" and "r < 2 ^ 31"
  shows "uint (rand_usec wi r) = r mod (usecs wi + 1)"
proof -
  let ?m = "usecs wi + 1"
  have pos: "0 < ?m"
    using assms(1,3) by (simp add: usecs_def)
  have sm: "r smod ?m = r mod ?m"
    using assms(5) pos by (rule smod_nonneg_pos)
  have ge: "0 \<le> r mod ?m"
    using pos by (rule pos_mod_sign)
  have "r mod ?m \<le> r"
    using assms(5) pos by (simp add: zmod_le_nonneg_dividend)
  also have "r < 2 ^ 64"
    using assms(6) by simp
  finally have lt: "r mod ?m < 2 ^ 64" .
  have "rand_usec wi r = word_of_int (r mod ?m)"
    by (simp only: rand_usec_def modulus_exact [OF assms(1-4)] sm)
  then have "uint (rand_usec wi r) = (r mod ?m) mod 2 ^ 64"
    by (simp add: uint_word_of_int)
  also have "\<dots> = r mod ?m"
    using ge lt by simp
  finally show ?thesis .
qed

lemma initial_timeout_usecs:
  assumes "0 \<le> tv_sec_us wi" and "tv_sec_us wi < 9223372036854"
    and "1 \<le> tv_usec wi" and "tv_usec wi < 1000000" and "0 \<le> r" and "r < 2 ^ 31"
  shows "usecs (initial_timeout wi r) = r mod (usecs wi + 1)"
    and "0 \<le> tv_sec_us (initial_timeout wi r)"
    and "0 \<le> tv_usec (initial_timeout wi r)"
    and "tv_usec (initial_timeout wi r) < 1000000"
proof -
  let ?w = "rand_usec wi r"
  have v: "uint ?w = r mod (usecs wi + 1)"
    using assms by (rule rand_usec_value)
  have pos: "0 < usecs wi + 1"
    using assms(1,3) by (simp add: usecs_def)
  have "r mod (usecs wi + 1) \<le> r"
    using assms(5) pos by (simp add: zmod_le_nonneg_dividend)
  with assms(6) v have small: "uint ?w < 2 ^ 31"
    by simp
  then have "int (unat ?w) < 2 ^ 31"
    by simp
  then have un: "unat ?w < 2 ^ 31"
    by (metis of_nat_less_iff of_nat_numeral of_nat_power)
  have d: "unat (?w div 1000000) = unat ?w div 1000000"
    by (simp add: unat_div)
  have m: "unat (?w mod 1000000) = unat ?w mod 1000000"
    by (simp add: unat_mod)
  have "unat ?w div 1000000 \<le> unat ?w"
    by (rule div_le_dividend)
  with un have "unat (?w div 1000000) < 2 ^ 63"
    unfolding d by simp
  then have sd: "sint (?w div 1000000) = int (unat ?w div 1000000)"
    unfolding d [symmetric] by (rule sint_small)
  have "unat ?w mod 1000000 < 1000000"
    by simp
  then have "unat (?w mod 1000000) < 2 ^ 63"
    unfolding m by simp
  then have sm: "sint (?w mod 1000000) = int (unat ?w mod 1000000)"
    unfolding m [symmetric] by (rule sint_small)
  have "int (unat ?w) = int (1000000 * (unat ?w div 1000000) + unat ?w mod 1000000)"
    by (simp only: mult_div_mod_eq)
  also have "\<dots> = 1000000 * int (unat ?w div 1000000) + int (unat ?w mod 1000000)"
    by (simp only: of_nat_add of_nat_mult of_nat_numeral)
  finally have split: "1000000 * int (unat ?w div 1000000) + int (unat ?w mod 1000000) =
                       int (unat ?w)"
    by (rule sym)
  have "usecs (initial_timeout wi r) =
        1000000 * int (unat ?w div 1000000) + int (unat ?w mod 1000000)"
    by (simp add: usecs_def initial_timeout_def sd sm)
  also note split
  also have "int (unat ?w) = r mod (usecs wi + 1)"
    using v by simp
  finally show "usecs (initial_timeout wi r) = r mod (usecs wi + 1)" .
  show "0 \<le> tv_sec_us (initial_timeout wi r)"
    by (simp add: initial_timeout_def sd)
  show "0 \<le> tv_usec (initial_timeout wi r)"
    by (simp add: initial_timeout_def sm)
  show "tv_usec (initial_timeout wi r) < 1000000"
    by (simp add: initial_timeout_def sm)
qed


lemma write_interval_sec_range:
  assumes "unat nb div unat rt < 9223372036854"
  shows "0 \<le> tv_sec_us (write_interval nb rt)"
    and "tv_sec_us (write_interval nb rt) < 9223372036854"
proof -
  have u: "unat (nb div rt) = unat nb div unat rt"
    by (simp add: unat_div)
  have "unat (nb div rt) < 2 ^ 63"
    using assms unfolding u by simp
  then have s: "sint (nb div rt) = int (unat (nb div rt))"
    by (rule sint_small)
  have v: "tv_sec_us (write_interval nb rt) = int (unat nb div unat rt)"
    by (simp add: write_interval_def Let_def s u)
  show "0 \<le> tv_sec_us (write_interval nb rt)"
    by (simp only: v)
  from assms have "int (unat nb div unat rt) < 9223372036854"
    by linarith
  then show "tv_sec_us (write_interval nb rt) < 9223372036854"
    by (simp only: v)
qed

lemma ex_interval:
  "write_interval 4 2 = \<lparr>tv_sec_us = 2, tv_usec = 1\<rparr>"
  "to_long 2000000 = 2000000" "to_long 2000001 = 2000001" "to_long 2000002 = 2000002"
  "usecs \<lparr>tv_sec_us = 2, tv_usec = 1\<rparr> = 2000001"
  by (simp_all add: write_interval_def to_long_def usecs_def)

lemma ex_initial_timeout:
  "initial_timeout \<lparr>tv_sec_us = 2, tv_usec = 1\<rparr> 71876166 = \<lparr>tv_sec_us = 1, tv_usec = 876096\<rparr>"
  "initial_timeout \<lparr>tv_sec_us = 2, tv_usec = 1\<rparr> 2000001 = \<lparr>tv_sec_us = 2, tv_usec = 1\<rparr>"
proof -
  have "rand_usec \<lparr>tv_sec_us = 2, tv_usec = 1\<rparr> 71876166 = 1876096"
    by (simp add: rand_usec_def ex_interval(2,3,4) signed_modulo_int_def)
  then show "initial_timeout \<lparr>tv_sec_us = 2, tv_usec = 1\<rparr> 71876166 = \<lparr>tv_sec_us = 1, tv_usec = 876096\<rparr>"
    by (simp add: initial_timeout_def)
  have "rand_usec \<lparr>tv_sec_us = 2, tv_usec = 1\<rparr> 2000001 = 2000001"
    by (simp add: rand_usec_def ex_interval(2,3,4) signed_modulo_int_def)
  then show "initial_timeout \<lparr>tv_sec_us = 2, tv_usec = 1\<rparr> 2000001 = \<lparr>tv_sec_us = 2, tv_usec = 1\<rparr>"
    by (simp add: initial_timeout_def)
qed

text \<open>
  C4, as the code computes it. With \<open>random()\<close> returning \<open>r\<close> in \<open>[0, 2 ^ 31)\<close> and a
  write interval of fewer than \<open>9223372036854\<close> seconds (so that line 377 computes the
  interval in microseconds without leaving the range of \<open>long\<close>), the initial timeout
  is \<open>r mod (interval + 1)\<close> microseconds, split into normalized seconds and
  microseconds: it lies in the closed range \<open>[0, interval]\<close>, never above the interval.
  The modulus is the interval plus one microsecond, so the delay can equal the interval:
  for 4 connections at rate 2 and \<open>r = 2000001\<close> the initial timeout is the write
  interval itself.
\<close>

theorem initial_delay_closed_range:
  assumes "unat nb div unat rt < 9223372036854" and "0 \<le> r" and "r < 2 ^ 31"
  shows "usecs (initial_timeout (write_interval nb rt) r) = r mod (usecs (write_interval nb rt) + 1) \<and>
         0 \<le> usecs (initial_timeout (write_interval nb rt) r) \<and>
         usecs (initial_timeout (write_interval nb rt) r) \<le> usecs (write_interval nb rt) \<and>
         0 \<le> tv_sec_us (initial_timeout (write_interval nb rt) r) \<and>
         0 \<le> tv_usec (initial_timeout (write_interval nb rt) r) \<and>
         tv_usec (initial_timeout (write_interval nb rt) r) < 1000000"
proof -
  let ?wi = "write_interval nb rt"
  note a = write_interval_sec_range [OF assms(1)]
  have b: "1 \<le> tv_usec ?wi" "tv_usec ?wi < 1000000"
    using write_interval_usec_range [of nb rt] by simp_all
  note it = initial_timeout_usecs [OF a b assms(2,3)]
  have pos: "0 < usecs ?wi + 1"
    using a(1) b(1) by (simp add: usecs_def)
  have lo: "0 \<le> r mod (usecs ?wi + 1)"
    using pos by (rule pos_mod_sign)
  have "r mod (usecs ?wi + 1) < usecs ?wi + 1"
    using pos by (rule pos_mod_bound)
  then have hi: "r mod (usecs ?wi + 1) \<le> usecs ?wi"
    by linarith
  from it lo hi show ?thesis
    by (simp only: simp_thms)
qed

theorem initial_delay_closed_range_witness:
  "unat (4 :: ulong) div unat (2 :: ulong) < 9223372036854 \<and>
   (0 :: int) \<le> 71876166 \<and> (71876166 :: int) < 2 ^ 31 \<and>
   usecs (write_interval 4 2) = 2000001 \<and>
   usecs (initial_timeout (write_interval 4 2) 71876166) = 1876096 \<and>
   usecs (initial_timeout (write_interval 4 2) 71876166) \<le> usecs (write_interval 4 2)"
proof -
  have h: "unat (4 :: ulong) div unat (2 :: ulong) < 9223372036854"
    "(0 :: int) \<le> 71876166" "(71876166 :: int) < 2 ^ 31"
    by simp_all
  note t = initial_delay_closed_range [OF h]
  have u: "usecs (write_interval 4 2) = 2000001"
    by (simp only: ex_interval)
  have v: "usecs (initial_timeout (write_interval 4 2) 71876166) = 1876096"
    by (simp add: ex_interval(1) ex_initial_timeout usecs_def)
  from t have w: "usecs (initial_timeout (write_interval 4 2) 71876166) \<le> usecs (write_interval 4 2)"
    by blast
  from h u v w show ?thesis
    by blast
qed

theorem initial_delay_closed_range_counterexample:
  "(0 :: int) \<le> 2000001 \<and> (2000001 :: int) < 2 ^ 31 \<and>
   initial_timeout (write_interval 4 2) 2000001 = write_interval 4 2 \<and>
   usecs (initial_timeout (write_interval 4 2) 2000001) = usecs (write_interval 4 2)"
  by (simp add: ex_interval(1) ex_initial_timeout)

section \<open>The validity check and the new-connection interval\<close>

text \<open>
  C10. The check of line 255 makes \<open>main\<close> return 1 when \<open>rate\<close> or \<open>nb_conn\<close> is 0,
  and does not look at \<open>new_conn_rate\<close>: on a command line that passes the check, the
  division \<open>1000000 / new_conn_rate\<close> of line 267 is reached, and it is a division by
  zero exactly when \<open>new_conn_rate\<close> is 0; with \<open>new_conn_rate \<ge> 1\<close> it yields the
  interval. In particular \<open>-p p -r r -c c -n 0 host\<close> with non-zero \<open>r\<close> and \<open>c\<close>
  reaches the division with a zero divisor.
\<close>

theorem new_conn_rate_zero_divides:
  "(rate cfg = 0 \<or> nb_conn cfg = 0 \<longrightarrow> main_intervals cfg host = Inl (Exit 1)) \<and>
   (host \<noteq> None \<and> port cfg \<noteq> None \<and> rate cfg \<noteq> 0 \<and> nb_conn cfg \<noteq> 0 \<longrightarrow>
      (main_intervals cfg host = Inl Division_by_zero \<longleftrightarrow> new_conn_rate cfg = 0) \<and>
      (new_conn_rate cfg \<noteq> 0 \<longrightarrow>
         main_intervals cfg host =
           Inr (write_interval (nb_conn cfg) (rate cfg), 1000000 div new_conn_rate cfg))) \<and>
   (r \<noteq> 0 \<and> c \<noteq> 0 \<longrightarrow>
      main seed rnd e [Opt_p p, Opt_r r, Opt_c c, Opt_n 0] (Some h) = Inl Division_by_zero) \<and>
   main seed rnd e [Opt_p p, Opt_r 0, Opt_c c, Opt_n n] (Some h) = Inl (Exit 1) \<and>
   main seed rnd e [Opt_p p, Opt_r r, Opt_c 0, Opt_n n] (Some h) = Inl (Exit 1)"
proof (intro conjI impI)
  assume "rate cfg = 0 \<or> nb_conn cfg = 0"
  then show "main_intervals cfg host = Inl (Exit 1)"
    by (auto simp: main_intervals_def)
next
  assume h: "host \<noteq> None \<and> port cfg \<noteq> None \<and> rate cfg \<noteq> 0 \<and> nb_conn cfg \<noteq> 0"
  then show "main_intervals cfg host = Inl Division_by_zero \<longleftrightarrow> new_conn_rate cfg = 0"
    by (simp add: main_intervals_def Let_def)
  assume "new_conn_rate cfg \<noteq> 0"
  with h show "main_intervals cfg host =
           Inr (write_interval (nb_conn cfg) (rate cfg), 1000000 div new_conn_rate cfg)"
    by (simp add: main_intervals_def Let_def)
next
  assume "r \<noteq> 0 \<and> c \<noteq> 0"
  then show "main seed rnd e [Opt_p p, Opt_r r, Opt_c c, Opt_n 0] (Some h) = Inl Division_by_zero"
    by (simp add: main_def options_init_def main_intervals_def Let_def)
next
  show "main seed rnd e [Opt_p p, Opt_r 0, Opt_c c, Opt_n n] (Some h) = Inl (Exit 1)"
    by (simp add: main_def options_init_def main_intervals_def Let_def)
  show "main seed rnd e [Opt_p p, Opt_r r, Opt_c 0, Opt_n n] (Some h) = Inl (Exit 1)"
    by (simp add: main_def options_init_def main_intervals_def Let_def)
qed

theorem new_conn_rate_zero_divides_witness:
  "main ex_seed ex_rnd (ex_env ex_att) [Opt_p ''53'', Opt_r 2, Opt_c 4, Opt_n 0] (Some ''host'')
     = Inl Division_by_zero \<and>
   main ex_seed ex_rnd (ex_env ex_att) [Opt_p ''53'', Opt_r 0, Opt_c 4, Opt_n 0] (Some ''host'')
     = Inl (Exit 1) \<and>
   main_intervals
     \<lparr>port = Some ''53'', rate = 2, nb_conn = 4, new_conn_rate = 0, duration = 0,
      verbose = 0, opt_print_rtt = False\<rparr> (Some ''host'') = Inl Division_by_zero \<and>
   main_intervals
     \<lparr>port = Some ''53'', rate = 2, nb_conn = 4, new_conn_rate = 1000, duration = 0,
      verbose = 0, opt_print_rtt = False\<rparr> (Some ''host'')
     = Inr (\<lparr>tv_sec_us = 2, tv_usec = 1\<rparr>, 1000)"
  using
    new_conn_rate_zero_divides
      [where cfg = "\<lparr>port = Some ''53'', rate = 2, nb_conn = 4, new_conn_rate = 0, duration = 0,
                     verbose = 0, opt_print_rtt = False\<rparr>"
         and host = "Some ''host''" and r = 2 and c = 4 and seed = ex_seed and rnd = ex_rnd
         and e = "ex_env ex_att" and p = "''53''" and h = "''host''" and n = 0]
    new_conn_rate_zero_divides
      [where cfg = "\<lparr>port = Some ''53'', rate = 2, nb_conn = 4, new_conn_rate = 1000, duration = 0,
                     verbose = 0, opt_print_rtt = False\<rparr>"
         and host = "Some ''host''" and r = 2 and c = 4 and seed = ex_seed and rnd = ex_rnd
         and e = "ex_env ex_att" and p = "''53''" and h = "''host''" and n = 0]
  by (simp add: write_interval_def)

section \<open>The initial delays of two runs\<close>

lemma schedule_delays:
  "map snd (fst (schedule rnd wi nb bufevents conn g setups)) =
     delays rnd wi g (length (fst (schedule rnd wi nb bufevents conn g setups)))"
proof (induction rnd wi nb bufevents conn g setups rule: schedule.induct)
  case (1 rnd wi nb bufevents conn g setups)
  show ?case
  proof (cases "conn < nb \<and> bufevents ! conn \<noteq> None")
    case False
    then show ?thesis by (simp add: schedule_stop)
  next
    case True
    then have a: "conn < nb" and b: "bufevents ! conn \<noteq> None"
      by simp_all
    from "1.IH" [OF True refl refl] show ?thesis
      by (simp add: schedule_go [of conn nb bufevents rnd wi g setups, OF a b])
  qed
qed

lemma delays_take:
  "n \<le> m \<Longrightarrow> delays rnd wi g n = take n (delays rnd wi g m)"
proof (induction n arbitrary: g m)
  case 0
  show ?case by simp
next
  case (Suc n)
  then obtain m' where m: "m = Suc m'" and le: "n \<le> m'"
    by (cases m) simp_all
  from Suc.IH [OF le] show ?case
    by (simp add: m)
qed

lemma delays_nth:
  "i < n \<Longrightarrow> i < m \<Longrightarrow> delays rnd wi g n ! i = delays rnd wi g m ! i"
proof (induction i arbitrary: n m g)
  case 0
  have n: "n = Suc (n - 1)" and m: "m = Suc (m - 1)"
    using "0.prems" by linarith+
  show ?case
    by (subst n, subst m) simp
next
  case (Suc i)
  have n: "n = Suc (n - 1)" and m: "m = Suc (m - 1)"
    using Suc.prems by linarith+
  have lt: "i < n - 1" "i < m - 1"
    using Suc.prems by linarith+
  have "delays rnd wi (snd (rnd g)) (n - 1) ! i = delays rnd wi (snd (rnd g)) (m - 1) ! i"
    using lt by (rule Suc.IH)
  then show ?case
    by (subst n, subst m) simp
qed

lemma main_timers:
  assumes "main seed rnd e opts host = Inr r"
  shows "\<exists>cfg. getopt_loop options_init opts = Inr cfg \<and>
           map snd (timers r) =
             delays rnd (write_interval (nb_conn cfg) (rate cfg)) (seed 42) (length (timers r))"
proof (cases "getopt_loop options_init opts")
  case (Inl code)
  with assms show ?thesis by (simp add: main_def)
next
  case (Inr cfg)
  show ?thesis
  proof (cases "main_intervals cfg host")
    case (Inl st)
    with assms Inr show ?thesis by (simp add: main_def)
  next
    case iv: (Inr p)
    obtain wi nci where p: "p = (wi, nci)"
      by (cases p)
    from iv p have wi: "wi = write_interval (nb_conn cfg) (rate cfg)"
      by (auto simp: main_intervals_def Let_def split: if_splits)
    from assms Inr iv p have
      "timers r = fst (schedule rnd wi (unat (nb_conn cfg))
                    (fst (snd (ramp (attempts e) (unat (nb_conn cfg)) 0
                       (map (bufevents_garbage e) [0..<unat (nb_conn cfg)]))))
                    0 (seed 42) (map (setups_garbage e) [0..<unat (nb_conn cfg)]))"
      by (auto simp: main_def Let_def split: if_splits)
    then have "map snd (timers r) = delays rnd wi (seed 42) (length (timers r))"
      by (simp only: schedule_delays)
    with Inr wi show ?thesis
      by simp
  qed
qed

lemma delays_of_main:
  assumes "getopt_loop options_init opts = Inr cfg"
  shows "delays_of (main seed rnd e opts host) =
           delays rnd (write_interval (nb_conn cfg) (rate cfg)) (seed 42)
             (length (delays_of (main seed rnd e opts host)))"
proof (cases "main seed rnd e opts host")
  case (Inl st)
  then show ?thesis by (simp add: delays_of_def)
next
  case (Inr r)
  from main_timers [OF Inr] assms have
    "map snd (timers r) =
       delays rnd (write_interval (nb_conn cfg) (rate cfg)) (seed 42) (length (timers r))"
    by auto
  with Inr show ?thesis
    by (simp add: delays_of_def length_delays)
qed

lemma delays_prefix:
  "n \<le> m \<Longrightarrow> prefix (delays rnd wi g n) (delays rnd wi g m)"
  by (simp add: delays_take take_is_prefix)

lemma delays_of_main_schedule:
  assumes "getopt_loop options_init opts = Inr cfg"
    and "main_intervals cfg host = Inr (wi, nci)"
    and "getaddrinfo_ok e" and "probe_ok e" and "event_base_ok e"
  shows "delays_of (main seed rnd e opts host) =
           map snd (fst (schedule rnd wi (unat (nb_conn cfg))
                      (fst (snd (ramp (attempts e) (unat (nb_conn cfg)) 0
                                   (map (bufevents_garbage e) [0..<unat (nb_conn cfg)]))))
                      0 (seed 42) (map (setups_garbage e) [0..<unat (nb_conn cfg)])))"
  using assms by (simp add: main_def delays_of_def Let_def)

lemma length_delays_of_main:
  assumes "getopt_loop options_init opts = Inr cfg"
    and "main_intervals cfg host = Inr (wi, nci)"
    and "getaddrinfo_ok e" and "probe_ok e" and "event_base_ok e"
  shows "(\<forall>j. j < unat (nb_conn cfg) \<longrightarrow> attempts e j = Connected) \<Longrightarrow>
           length (delays_of (main seed rnd e opts host)) = unat (nb_conn cfg)"
    and "1 \<le> k \<and> k \<le> unat (nb_conn cfg) \<and> attempts e (k - 1) \<noteq> Connected \<and>
         (\<forall>j. j < k - 1 \<longrightarrow> attempts e j = Connected) \<Longrightarrow>
           length (delays_of (main seed rnd e opts host)) = k - 1"
proof -
  let ?n = "unat (nb_conn cfg)"
  let ?b = "map (bufevents_garbage e) [0..<?n]"
  let ?s = "map (setups_garbage e) [0..<?n]"
  let ?X = "fst (schedule rnd wi ?n (fst (snd (ramp (attempts e) ?n 0 ?b))) 0 (seed 42) ?s)"
  have d: "delays_of (main seed rnd e opts host) = map snd ?X"
    using assms by (rule delays_of_main_schedule)
  have len: "length (delays_of (main seed rnd e opts host)) = length (map fst ?X)"
    by (simp add: d)
  have lb: "length ?b = ?n" and ls: "length ?s = ?n"
    by simp_all
  note rf = ramp_fail_fast [OF lb ls, of _ "attempts e" rnd wi "seed 42"]
  show "length (delays_of (main seed rnd e opts host)) = ?n"
    if "\<forall>j. j < ?n \<longrightarrow> attempts e j = Connected"
  proof -
    from rf [of 0] that have "map fst ?X = [0..<?n]"
      by blast
    with len show ?thesis by simp
  qed
  show "length (delays_of (main seed rnd e opts host)) = k - 1"
    if "1 \<le> k \<and> k \<le> ?n \<and> attempts e (k - 1) \<noteq> Connected \<and>
         (\<forall>j. j < k - 1 \<longrightarrow> attempts e j = Connected)"
  proof -
    from rf [of k] that have "map fst ?X = [0..<k - 1]"
      by blast
    with len show ?thesis by simp
  qed
qed

lemma ex_run_facts:
  "getopt_loop options_init ex_opts =
     Inr \<lparr>port = Some ''53'', rate = 2, nb_conn = 4, new_conn_rate = 1000, duration = 0,
          verbose = 0, opt_print_rtt = True\<rparr>"
  "main_intervals \<lparr>port = Some ''53'', rate = 2, nb_conn = 4, new_conn_rate = 1000, duration = 0,
          verbose = 0, opt_print_rtt = True\<rparr> (Some ''host'')
     = Inr (\<lparr>tv_sec_us = 2, tv_usec = 1\<rparr>, 1000)"
  "getaddrinfo_ok (ex_env att)" "probe_ok (ex_env att)" "event_base_ok (ex_env att)"
  "attempts (ex_env att) = att"
  by (simp_all add: ex_opts_def options_init_def main_intervals_def write_interval_def ex_env_def)

lemma ex_run_lengths:
  "length (delays_of (main ex_seed ex_rnd (ex_env (\<lambda>j. Connected)) ex_opts (Some ''host''))) = 4"
  "length (delays_of (main ex_seed ex_rnd (ex_env ex_att) ex_opts (Some ''host''))) = 2"
proof -
  note f = ex_run_facts(1,2)
  show "length (delays_of (main ex_seed ex_rnd (ex_env (\<lambda>j. Connected)) ex_opts (Some ''host''))) = 4"
    using length_delays_of_main(1) [OF f ex_run_facts(3,4,5), of "\<lambda>j. Connected" ex_seed ex_rnd]
    by (simp add: ex_run_facts(6))
  show "length (delays_of (main ex_seed ex_rnd (ex_env ex_att) ex_opts (Some ''host''))) = 2"
    using length_delays_of_main(2) [OF f ex_run_facts(3,4,5), of 3 ex_att ex_seed ex_rnd]
    by (simp add: ex_run_facts(6) ex_att_def)
qed

text \<open>
  C9, as the code behaves. \<open>main\<close> seeds the generator with the constant 42 before the
  scheduling loop, and nothing else draws from it: the delays of a run are the first
  \<open>n\<close> elements of one sequence fixed by the command line, \<open>n\<close> being the number of
  connections that survived ramp-up. So of two runs on the same command line one draws
  a prefix of the other's delays, and the two sequences are identical when both runs
  schedule the same number of connections. They are not identical in general: the
  number of delays drawn follows the ramp-up, which the environment decides.
\<close>

theorem delays_determined_by_seed:
  "(prefix (delays_of (main seed rnd e1 opts host)) (delays_of (main seed rnd e2 opts host)) \<or>
    prefix (delays_of (main seed rnd e2 opts host)) (delays_of (main seed rnd e1 opts host))) \<and>
   (length (delays_of (main seed rnd e1 opts host)) =
    length (delays_of (main seed rnd e2 opts host)) \<longrightarrow>
      delays_of (main seed rnd e1 opts host) = delays_of (main seed rnd e2 opts host)) \<and>
   (getopt_loop options_init opts = Inr cfg \<longrightarrow>
      delays_of (main seed rnd e1 opts host) =
        delays rnd (write_interval (nb_conn cfg) (rate cfg)) (seed 42)
          (length (delays_of (main seed rnd e1 opts host))))"
proof (cases "getopt_loop options_init opts")
  case (Inl code)
  then have "delays_of (main seed rnd e opts host) = []" for e
    by (simp add: main_def delays_of_def)
  with Inl show ?thesis
    by simp
next
  case (Inr c)
  let ?d1 = "delays_of (main seed rnd e1 opts host)"
  let ?d2 = "delays_of (main seed rnd e2 opts host)"
  let ?wi = "write_interval (nb_conn c) (rate c)"
  have d1: "?d1 = delays rnd ?wi (seed 42) (length ?d1)"
    using Inr by (rule delays_of_main)
  have d2: "?d2 = delays rnd ?wi (seed 42) (length ?d2)"
    using Inr by (rule delays_of_main)
  have A: "prefix ?d1 ?d2 \<or> prefix ?d2 ?d1"
  proof (cases "length ?d1 \<le> length ?d2")
    case True
    then have "prefix (delays rnd ?wi (seed 42) (length ?d1)) (delays rnd ?wi (seed 42) (length ?d2))"
      by (rule delays_prefix)
    with d1 d2 show ?thesis by metis
  next
    case False
    then have "length ?d2 \<le> length ?d1"
      by simp
    then have "prefix (delays rnd ?wi (seed 42) (length ?d2)) (delays rnd ?wi (seed 42) (length ?d1))"
      by (rule delays_prefix)
    with d1 d2 show ?thesis by metis
  qed
  have B: "length ?d1 = length ?d2 \<longrightarrow> ?d1 = ?d2"
    using d1 d2 by metis
  have C: "getopt_loop options_init opts = Inr cfg \<longrightarrow>
      ?d1 = delays rnd (write_interval (nb_conn cfg) (rate cfg)) (seed 42) (length ?d1)"
    using delays_of_main [of opts cfg seed rnd e1 host] by blast
  from A B C show ?thesis
    by blast
qed

theorem delays_determined_by_seed_witness:
  "prefix (delays_of (main ex_seed ex_rnd (ex_env ex_att) ex_opts (Some ''host'')))
          (delays_of (main ex_seed ex_rnd (ex_env (\<lambda>j. Connected)) ex_opts (Some ''host''))) \<and>
   delays_of (main ex_seed ex_rnd (ex_env ex_att) ex_opts (Some ''host'')) =
     delays ex_rnd \<lparr>tv_sec_us = 2, tv_usec = 1\<rparr> (ex_seed 42) 2"
proof -
  let ?d1 = "delays_of (main ex_seed ex_rnd (ex_env ex_att) ex_opts (Some ''host''))"
  let ?d2 = "delays_of (main ex_seed ex_rnd (ex_env (\<lambda>j. Connected)) ex_opts (Some ''host''))"
  note t = delays_determined_by_seed
    [of ex_seed ex_rnd "ex_env ex_att" ex_opts "Some ''host''" "ex_env (\<lambda>j. Connected)"
        "\<lparr>port = Some ''53'', rate = 2, nb_conn = 4, new_conn_rate = 1000, duration = 0,
          verbose = 0, opt_print_rtt = True\<rparr>"]
  have "\<not> prefix ?d2 ?d1"
  proof
    assume "prefix ?d2 ?d1"
    then have "length ?d2 \<le> length ?d1"
      by (rule prefix_length_le)
    then show False
      by (simp add: ex_run_lengths)
  qed
  with t have A: "prefix ?d1 ?d2"
    by blast
  from t ex_run_facts(1) have
    "?d1 = delays ex_rnd (write_interval 4 2) (ex_seed 42) (length ?d1)"
    by simp
  then have B: "?d1 = delays ex_rnd \<lparr>tv_sec_us = 2, tv_usec = 1\<rparr> (ex_seed 42) 2"
    by (simp add: ex_run_lengths write_interval_def)
  from A B show ?thesis
    by blast
qed

theorem delays_determined_by_seed_counterexample:
  "length (delays_of (main ex_seed ex_rnd (ex_env (\<lambda>j. Connected)) ex_opts (Some ''host''))) = 4 \<and>
   length (delays_of (main ex_seed ex_rnd (ex_env ex_att) ex_opts (Some ''host''))) = 2 \<and>
   delays_of (main ex_seed ex_rnd (ex_env (\<lambda>j. Connected)) ex_opts (Some ''host'')) \<noteq>
   delays_of (main ex_seed ex_rnd (ex_env ex_att) ex_opts (Some ''host''))"
proof -
  let ?d1 = "delays_of (main ex_seed ex_rnd (ex_env ex_att) ex_opts (Some ''host''))"
  let ?d2 = "delays_of (main ex_seed ex_rnd (ex_env (\<lambda>j. Connected)) ex_opts (Some ''host''))"
  have "length ?d2 \<noteq> length ?d1"
    by (simp add: ex_run_lengths)
  then have "?d2 \<noteq> ?d1"
    by auto
  then show ?thesis
    by (simp add: ex_run_lengths)
qed

section \<open>Transport errors\<close>

lemma step_Bev_event:
  "fst (step err s (i, Bev_event events)) = fst s"
  "snd (step err s (i, Bev_event events)) = snd s \<or>
   snd (step err s (i, Bev_event events)) = (snd s)\<lparr>stderr := stderr (snd s) @ [''Connection error'']\<rparr>"
  "data (snd (step err s (i, Bev_event events))) = data (snd s)"
  by (simp_all add: step_def Let_def eventcb_def)

lemma sends_append: "sends i (xs @ ys) = sends i xs + sends i ys"
  by (simp add: sends_def)

lemma sends_Bev_event: "sends i [(j, Bev_event events)] = 0"
  by (simp add: sends_def is_send_def)

lemma ex_state_facts:
  "(0::nat) < length (fst ([ex_conn], ex_world))"
  "data_ok (data (snd ([ex_conn], ex_world)))"
  "output_buf (fst ([ex_conn], ex_world) ! 0) = []"
  "query_id (fst ([ex_conn], ex_world) ! 0) = 0"
  "is_send 0 (0, Write_fire)"
  "sends 0 [(0, Setup_fire True)] = 1"
  "sends 0 [(0, Write_fire)] = 1"
  "output_buf ex_conn = []"
  "query_id ex_conn = 0"
  by (simp_all add: ex_conn_def ex_world_def data_ok_init is_send_def sends_def)

text \<open>
  C7, as the code behaves. \<open>eventcb\<close> is the only code that sees a transport error,
  and it only reports it: the program keeps no connection state (there is no Failed
  state), and an error event leaves every connection's identifier, time stamps, buffers
  and timers as they were. A timer that fires after the error still runs \<open>writecb\<close>,
  which appends the frame with the next identifier to the connection's output buffer:
  the output of a connection after a run of the event loop is one frame per send on
  it, whether or not error events lie in between. Whether libevent still transmits what
  is queued on a failed socket is outside the program.
\<close>

theorem error_event_stops_nothing:
  "fst (step err s (i, Bev_event events)) = fst s \<and>
   (snd (step err s (i, Bev_event events)) = snd s \<or>
    snd (step err s (i, Bev_event events)) =
      (snd s)\<lparr>stderr := stderr (snd s) @ [''Connection error'']\<rparr>) \<and>
   (j < length (fst s) \<and> data_ok (data (snd s)) \<and> is_send j e \<longrightarrow>
      output_buf (fst (step err (step err s (j, Bev_event events)) e) ! j) =
        output_buf (fst s ! j) @ request_frame (query_id (fst s ! j))) \<and>
   (j < length (fst s) \<and> data_ok (data (snd s)) \<longrightarrow>
      output_buf (fst (run err s (evs1 @ [(j, Bev_event events)] @ evs2)) ! j) =
        output_buf (fst s ! j) @
          concat (map (\<lambda>k. request_frame (query_id (fst s ! j) + of_nat k))
                    [0..<sends j evs1 + sends j evs2]))"
proof (intro conjI impI)
  show "fst (step err s (i, Bev_event events)) = fst s"
    by (rule step_Bev_event)
  show "snd (step err s (i, Bev_event events)) = snd s \<or>
    snd (step err s (i, Bev_event events)) =
      (snd s)\<lparr>stderr := stderr (snd s) @ [''Connection error'']\<rparr>"
    by (rule step_Bev_event)
next
  assume h: "j < length (fst s) \<and> data_ok (data (snd s)) \<and> is_send j e"
  let ?s = "step err s (j, Bev_event events)"
  have l: "j < length (fst ?s)"
    using h by (simp add: step_Bev_event(1))
  have d: "data_ok (data (snd ?s))"
    using h by (simp add: step_Bev_event(3))
  from step_conn(1) [OF l d, of err e] h
  show "output_buf (fst (step err ?s e) ! j) =
        output_buf (fst s ! j) @ request_frame (query_id (fst s ! j))"
    by (simp add: step_Bev_event(1))
next
  assume h: "j < length (fst s) \<and> data_ok (data (snd s))"
  then have l: "j < length (fst s)" and d: "data_ok (data (snd s))"
    by simp_all
  have "sends j (evs1 @ [(j, Bev_event events)] @ evs2) = sends j evs1 + sends j evs2"
    by (simp only: sends_append sends_Bev_event add_0)
  with run_conn [OF l d, of err "evs1 @ [(j, Bev_event events)] @ evs2"]
  show "output_buf (fst (run err s (evs1 @ [(j, Bev_event events)] @ evs2)) ! j) =
        output_buf (fst s ! j) @
          concat (map (\<lambda>k. request_frame (query_id (fst s ! j) + of_nat k))
                    [0..<sends j evs1 + sends j evs2])"
    by simp
qed

theorem error_event_stops_nothing_witness:
  "fst (step 32 ([ex_conn], ex_world) (0, Bev_event 32)) = [ex_conn] \<and>
   output_buf (fst (step 32 (step 32 ([ex_conn], ex_world) (0, Bev_event 32)) (0, Write_fire)) ! 0)
     = request_frame 0 \<and>
   output_buf (fst (run 32 ([ex_conn], ex_world)
                      ([(0, Setup_fire True)] @ [(0, Bev_event 32)] @ [(0, Write_fire)])) ! 0)
     = request_frame 0 @ request_frame 1"
proof -
  note t = error_event_stops_nothing
    [where s = "([ex_conn], ex_world)" and err = 32 and i = 0 and j = 0 and events = 32
       and e = "(0, Write_fire)" and ?evs1.0 = "[(0, Setup_fire True)]"
       and ?evs2.0 = "[(0, Write_fire)]"]
  from t have a: "fst (step 32 ([ex_conn], ex_world) (0, Bev_event 32)) = [ex_conn]"
    by simp
  from t ex_state_facts(1,2,5) have
    "output_buf (fst (step 32 (step 32 ([ex_conn], ex_world) (0, Bev_event 32)) (0, Write_fire)) ! 0)
       = output_buf (fst ([ex_conn], ex_world) ! 0) @
         request_frame (query_id (fst ([ex_conn], ex_world) ! 0))"
    by blast
  then have b: "output_buf (fst (step 32 (step 32 ([ex_conn], ex_world) (0, Bev_event 32))
                                  (0, Write_fire)) ! 0) = request_frame 0"
    by (simp only: ex_state_facts(3,4) append_Nil)
  from t ex_state_facts(1,2) have
    "output_buf (fst (run 32 ([ex_conn], ex_world)
                      ([(0, Setup_fire True)] @ [(0, Bev_event 32)] @ [(0, Write_fire)])) ! 0)
       = output_buf (fst ([ex_conn], ex_world) ! 0) @
          concat (map (\<lambda>k. request_frame (query_id (fst ([ex_conn], ex_world) ! 0) + of_nat k))
                    [0..<sends 0 [(0, Setup_fire True)] + sends 0 [(0, Write_fire)]])"
    by blast
  then have c: "output_buf (fst (run 32 ([ex_conn], ex_world)
                      ([(0, Setup_fire True)] @ [(0, Bev_event 32)] @ [(0, Write_fire)])) ! 0)
       = request_frame 0 @ request_frame 1"
    by (simp add: ex_state_facts(3,4,6,7,8,9) upt_rec)
  from a b c show ?thesis
    by blast
qed

theorem error_event_stops_nothing_counterexample:
  "(32 :: 16 word) AND 32 \<noteq> 0 \<and>
   stderr (snd (step 32 ([ex_conn], ex_world) (0, Bev_event 32))) = [''Connection error''] \<and>
   output_buf (fst (run 32 ([ex_conn], ex_world) [(0, Setup_fire True), (0, Bev_event 32)]) ! 0)
     = request_frame 0 \<and>
   output_buf (fst (run 32 ([ex_conn], ex_world)
                      [(0, Setup_fire True), (0, Bev_event 32), (0, Write_fire)]) ! 0)
     = request_frame 0 @ request_frame 1"
proof -
  have a: "(32 :: 16 word) AND 32 \<noteq> 0"
    by simp
  have b: "stderr (snd (step 32 ([ex_conn], ex_world) (0, Bev_event 32))) = [''Connection error'']"
    by (simp add: step_def Let_def eventcb_def ex_world_def)
  have s1: "sends 0 [(0, Setup_fire True), (0, Bev_event 32)] = 1"
    and s2: "sends 0 [(0, Setup_fire True), (0, Bev_event 32), (0, Write_fire)] = 2"
    by (simp_all add: sends_def is_send_def)
  note r = run_conn [OF ex_state_facts(1,2), of 32]
  from r [of "[(0, Setup_fire True), (0, Bev_event 32)]"]
  have c: "output_buf (fst (run 32 ([ex_conn], ex_world) [(0, Setup_fire True), (0, Bev_event 32)]) ! 0)
     = request_frame 0"
    by (simp add: ex_state_facts(8,9) s1)
  from r [of "[(0, Setup_fire True), (0, Bev_event 32), (0, Write_fire)]"]
  have d: "output_buf (fst (run 32 ([ex_conn], ex_world)
                      [(0, Setup_fire True), (0, Bev_event 32), (0, Write_fire)]) ! 0)
     = request_frame 0 @ request_frame 1"
    by (simp add: ex_state_facts(8,9) s2 upt_rec)
  from a b c d show ?thesis
    by blast
qed

section \<open>Round-trip times\<close>

lemma slot_distinct:
  fixes q :: uint16_t
  assumes "1 \<le> d" and "d \<le> 7"
  shows "unat (q + of_nat d) mod 8 \<noteq> unat q mod 8"
proof -
  have d: "unat (of_nat d :: uint16_t) = d"
    using assms(2) by (simp add: unat_of_nat)
  have "unat (q + of_nat d) = (unat q + unat (of_nat d :: uint16_t)) mod 2 ^ LENGTH(16)"
    by (rule unat_word_ariths(1))
  then have "unat (q + of_nat d) = (unat q + d) mod 65536"
    by (simp only: d) simp
  then have "unat (q + of_nat d) mod 8 = ((unat q + d) mod 65536) mod 8"
    by simp
  also have "\<dots> = (unat q + d) mod 8"
    by (rule mod_mod_cancel) simp
  finally have e: "unat (q + of_nat d) mod 8 = (unat q + d) mod 8" .
  define r where "r = unat q mod 8"
  have r: "r < 8"
    by (simp add: r_def)
  have split: "(unat q + d) mod 8 = (r + d) mod 8"
    unfolding r_def by (rule mod_add_left_eq [symmetric])
  have "(r + d) mod 8 \<noteq> r"
  proof (cases "r + d < 8")
    case True
    then have "(r + d) mod 8 = r + d"
      by (rule mod_less)
    with assms(1) show ?thesis
      by linarith
  next
    case False
    then have ge: "8 \<le> r + d"
      by linarith
    then have "(r + d) mod 8 = (r + d - 8) mod 8"
      by (rule le_mod_geq)
    also have "\<dots> = r + d - 8"
      using r assms(2) by (intro mod_less) linarith
    finally show ?thesis
      using ge assms(2) by linarith
  qed
  then have "(unat q + d) mod 8 \<noteq> unat q mod 8"
    by (simp only: split r_def [symmetric] simp_thms)
  with e show ?thesis
    by simp
qed

lemma rtt_exact:
  assumes "clock_stamp a" and "clock_stamp b" and "nsecs b \<le> nsecs a"
  shows "rtt_usec (subtract_timespec a b) = (nsecs a - nsecs b) div 1000"
proof (cases "nsecs b < nsecs a")
  case True
  from assms(1,2) have h: "normalized a" "normalized b" "0 \<le> tv_sec a" "in_long (tv_sec a)"
    "0 \<le> tv_sec b" "in_long (tv_sec b)"
    by (simp_all add: clock_stamp_def in_long_def)
  note l = subtract_timespec_later [OF h True]
  from assms(1,2) have "tv_sec a - tv_sec b < 9223372036854"
    by (simp add: clock_stamp_def)
  with l(4) have "tv_sec (subtract_timespec a b) < 9223372036854"
    by linarith
  with l(2,3) have "rtt_usec (subtract_timespec a b) = nsecs (subtract_timespec a b) div 1000"
    by (intro rtt_usec_exact(1))
  with l(1) show ?thesis
    by simp
next
  case False
  with assms(3) have eq: "nsecs a = nsecs b"
    by simp
  from assms(1,2) have "normalized a" "normalized b"
    by (simp_all add: clock_stamp_def)
  then have "subtract_timespec a b = \<lparr>tv_sec = 0, tv_nsec = 0\<rparr>"
    using eq by (intro subtract_timespec_not_later) simp_all
  with eq show ?thesis
    by (simp add: rtt_usec_zero)
qed

text \<open>What one callback does to the time stamps and the identifier of its connection,
  and to the clock.\<close>

lemma writecb_query_id: "query_id (fst (writecb c w)) = query_id c + 1"
  by (simp add: writecb_def Let_def)

lemma setup_writecb_fields:
  "query_id (fst (setup_writecb b c w)) = query_id c + 1"
  "query_timestamps (fst (setup_writecb b c w)) =
     (query_timestamps c)[unat (query_id c) mod MAX_QUERIES_IN_FLIGHT := clock w (clock_reads w)]"
  "clock (snd (setup_writecb b c w)) = clock w"
  "clock_reads (snd (setup_writecb b c w)) = Suc (clock_reads w)"
  "print_rtt (snd (setup_writecb b c w)) = print_rtt w"
  by (simp_all add: setup_writecb_def writecb_def Let_def)

lemma Decode_conj:
  "query_id (fst (callback err Decode c w)) = query_id c \<and>
   query_timestamps (fst (callback err Decode c w)) = query_timestamps c \<and>
   clock (snd (callback err Decode c w)) = clock w \<and>
   print_rtt (snd (callback err Decode c w)) = print_rtt w \<and>
   clock_reads w \<le> clock_reads (snd (callback err Decode c w))"
proof (cases "readcb_step c w")
  case None
  then show ?thesis by simp
next
  case (Some r)
  obtain q c' w' where r: "r = (q, c', w')"
    by (cases r)
  from Some r have s: "readcb_step c w = Some (q, c', w')"
    by simp
  note f = readcb_step_fields [OF s]
  have cb: "callback err Decode c w = (c', w')"
    using s by simp
  show ?thesis
    unfolding cb using f(2,3,5) by (simp add: report_rtt_fields)
qed

lemma Decode_fields:
  "query_id (fst (callback err Decode c w)) = query_id c"
  "query_timestamps (fst (callback err Decode c w)) = query_timestamps c"
  "clock (snd (callback err Decode c w)) = clock w"
  "print_rtt (snd (callback err Decode c w)) = print_rtt w"
  "clock_reads w \<le> clock_reads (snd (callback err Decode c w))"
  using Decode_conj [of err c w] by blast+

lemma callback_timestamps:
  "query_timestamps (fst (callback err ev c w)) =
     (if is_send i (i, ev)
      then (query_timestamps c)[unat (query_id c) mod MAX_QUERIES_IN_FLIGHT := clock w (clock_reads w)]
      else query_timestamps c)"
proof (cases ev)
  case (Setup_fire b)
  then show ?thesis by (simp add: is_send_def setup_writecb_fields)
next
  case Write_fire
  then show ?thesis by (simp add: is_send_def writecb_other_fields)
next
  case (Arrive bs)
  then show ?thesis by (simp add: is_send_def)
next
  case Decode
  then show ?thesis by (simp only: Decode_fields is_send_def snd_conv event.simps if_False simp_thms add_0_right)
next
  case (Bev_event events)
  then show ?thesis by (simp add: is_send_def)
qed

lemma callback_query_id:
  "query_id (fst (callback err ev c w)) = query_id c + (if is_send i (i, ev) then 1 else 0)"
proof (cases ev)
  case (Setup_fire b)
  then show ?thesis by (simp add: is_send_def setup_writecb_fields)
next
  case Write_fire
  then show ?thesis by (simp add: is_send_def writecb_query_id)
next
  case (Arrive bs)
  then show ?thesis by (simp add: is_send_def)
next
  case Decode
  then show ?thesis by (simp only: Decode_fields is_send_def snd_conv event.simps if_False simp_thms add_0_right)
next
  case (Bev_event events)
  then show ?thesis by (simp add: is_send_def)
qed

lemma callback_world:
  "clock (snd (callback err ev c w)) = clock w \<and>
   print_rtt (snd (callback err ev c w)) = print_rtt w \<and>
   clock_reads w \<le> clock_reads (snd (callback err ev c w))"
proof (cases ev)
  case (Setup_fire b)
  then show ?thesis by (simp add: setup_writecb_fields)
next
  case Write_fire
  then show ?thesis by (simp add: writecb_other_fields)
next
  case (Arrive bs)
  then show ?thesis by simp
next
  case Decode
  then show ?thesis by (simp only: Decode_fields simp_thms)
next
  case (Bev_event events)
  then show ?thesis by (simp add: eventcb_def)
qed

lemma callback_send_reads:
  "is_send i (i, ev) \<Longrightarrow> clock_reads (snd (callback err ev c w)) = Suc (clock_reads w)"
  by (cases ev) (simp_all add: is_send_def setup_writecb_fields writecb_other_fields)

text \<open>The same facts for one event and for a trace of events.\<close>

lemma step_stamps:
  assumes "i < length (fst s)"
  shows "query_timestamps (fst (step err s e) ! i) =
           (if is_send i e
            then (query_timestamps (fst s ! i))
                   [unat (query_id (fst s ! i)) mod MAX_QUERIES_IN_FLIGHT :=
                      clock (snd s) (clock_reads (snd s))]
            else query_timestamps (fst s ! i))"
proof -
  obtain j ev where e: "e = (j, ev)"
    by (cases e)
  show ?thesis
  proof (cases "j = i")
    case True
    with assms e show ?thesis
      by (simp add: step_def Let_def callback_timestamps [where i = i])
  next
    case False
    with assms e show ?thesis
      by (simp add: step_def Let_def is_send_other)
  qed
qed

lemma step_query_id:
  assumes "i < length (fst s)"
  shows "query_id (fst (step err s e) ! i) =
           query_id (fst s ! i) + (if is_send i e then 1 else 0)"
proof -
  obtain j ev where e: "e = (j, ev)"
    by (cases e)
  show ?thesis
  proof (cases "j = i")
    case True
    with assms e show ?thesis
      by (simp add: step_def Let_def callback_query_id [where i = i])
  next
    case False
    with assms e show ?thesis
      by (simp add: step_def Let_def is_send_other)
  qed
qed

lemma step_world:
  "clock (snd (step err s e)) = clock (snd s) \<and>
   print_rtt (snd (step err s e)) = print_rtt (snd s) \<and>
   clock_reads (snd s) \<le> clock_reads (snd (step err s e))"
proof (cases "fst e < length (fst s)")
  case True
  then have "snd (step err s e) = snd (callback err (snd e) (fst s ! fst e) (snd s))"
    by (simp add: step_def Let_def)
  then show ?thesis
    by (simp only: callback_world)
next
  case False
  then have "step err s e = s"
    by (simp add: step_def Let_def)
  then show ?thesis
    by simp
qed

lemma run_world:
  "clock (snd (run err s evs)) = clock (snd s) \<and>
   print_rtt (snd (run err s evs)) = print_rtt (snd s) \<and>
   clock_reads (snd s) \<le> clock_reads (snd (run err s evs))"
proof (induction evs rule: rev_induct)
  case Nil
  show ?case by (simp add: run_Nil)
next
  case (snoc e evs)
  note w = step_world [of err "run err s evs" e]
  from snoc.IH w show ?case
    unfolding run_snoc by (metis le_trans)
qed

lemma run_query_id:
  assumes "i < length (fst s)"
  shows "query_id (fst (run err s evs) ! i) = query_id (fst s ! i) + of_nat (sends i evs)"
proof (induction evs rule: rev_induct)
  case Nil
  show ?case by (simp add: run_Nil sends_Nil)
next
  case (snoc e evs)
  have len: "i < length (fst (run err s evs))"
    using assms by (simp add: length_run)
  show ?case
    using snoc.IH by (simp add: run_snoc sends_snoc step_query_id [OF len])
qed

lemma run_stamps_length:
  assumes "i < length (fst s)"
  shows "length (query_timestamps (fst (run err s evs) ! i)) =
           length (query_timestamps (fst s ! i))"
proof (induction evs rule: rev_induct)
  case Nil
  show ?case by (simp add: run_Nil)
next
  case (snoc e evs)
  have len: "i < length (fst (run err s evs))"
    using assms by (simp add: length_run)
  show ?case
    using snoc.IH by (simp add: run_snoc step_stamps [OF len])
qed

text \<open>
  The slot written for identifier \<open>q\<close> is not written again while the identifier of the
  connection stays within \<open>q + 1 .. q + 8\<close>.
\<close>

lemma slot_kept:
  fixes q :: uint16_t
  assumes "i < length (fst s)"
    and "query_id (fst s ! i) = q + of_nat d" and "1 \<le> d"
    and "d + sends i evs \<le> 8"
  shows "query_timestamps (fst (run err s evs) ! i) ! (unat q mod MAX_QUERIES_IN_FLIGHT) =
           query_timestamps (fst s ! i) ! (unat q mod MAX_QUERIES_IN_FLIGHT)"
  using assms(4)
proof (induction evs rule: rev_induct)
  case Nil
  show ?case by (simp add: run_Nil)
next
  case (snoc e evs)
  let ?s = "run err s evs"
  have len: "i < length (fst ?s)"
    using assms(1) by (simp add: length_run)
  from snoc.prems have le: "d + sends i evs \<le> 8"
    by (simp add: sends_snoc)
  note ih = snoc.IH [OF le]
  show ?case
  proof (cases "is_send i e")
    case False
    then have "query_timestamps (fst (step err ?s e) ! i) = query_timestamps (fst ?s ! i)"
      by (simp add: step_stamps [OF len])
    with ih show ?thesis
      by (simp only: run_snoc)
  next
    case True
    with snoc.prems have d7: "d + sends i evs \<le> 7"
      by (simp add: sends_snoc)
    have d1: "1 \<le> d + sends i evs"
      using assms(3) by linarith
    have qid: "query_id (fst ?s ! i) = q + of_nat (d + sends i evs)"
      by (simp add: run_query_id [OF assms(1)] assms(2))
    have ne: "unat (query_id (fst ?s ! i)) mod MAX_QUERIES_IN_FLIGHT \<noteq>
                unat q mod MAX_QUERIES_IN_FLIGHT"
      unfolding qid MAX_QUERIES_IN_FLIGHT_def by (rule slot_distinct [OF d1 d7])
    have "query_timestamps (fst (step err ?s e) ! i) =
            (query_timestamps (fst ?s ! i))
              [unat (query_id (fst ?s ! i)) mod MAX_QUERIES_IN_FLIGHT :=
                 clock (snd ?s) (clock_reads (snd ?s))]"
      using True by (simp add: step_stamps [OF len])
    then have "query_timestamps (fst (step err ?s e) ! i) ! (unat q mod MAX_QUERIES_IN_FLIGHT) =
                 query_timestamps (fst ?s ! i) ! (unat q mod MAX_QUERIES_IN_FLIGHT)"
      using ne by (metis nth_list_update_neq)
    with ih show ?thesis
      by (simp only: run_snoc)
  qed
qed

lemma step_send_reads:
  assumes "i < length (fst s)" and "is_send i e"
  shows "clock_reads (snd (step err s e)) = Suc (clock_reads (snd s))"
proof -
  obtain j ev where e: "e = (j, ev)"
    by (cases e)
  from assms(2) e have j: "j = i"
    by (simp add: is_send_def)
  from assms(2) e j have "is_send i (i, ev)"
    by simp
  then have "clock_reads (snd (callback err ev (fst s ! i) (snd s))) = Suc (clock_reads (snd s))"
    by (rule callback_send_reads)
  with assms(1) e j show ?thesis
    by (simp add: step_def Let_def)
qed

lemma nsecs_ex_clock: "nsecs (ex_clock n) = 1000000000 * int n + 500"
  by (simp add: nsecs_def ex_clock_def)

lemma ex_trace_facts:
  "input_buf (fst (run 32 (step 32 ([ex_conn, ex_conn], ex_world) (0, Setup_fire True))
                     [(1, Setup_fire True), (0, Write_fire), (0, Arrive [0, 2, 0, 0])]) ! 0)
     = [0, 2, 0, 0]"
  "clock_reads (snd (run 32 (step 32 ([ex_conn, ex_conn], ex_world) (0, Setup_fire True))
                     [(1, Setup_fire True), (0, Write_fire), (0, Arrive [0, 2, 0, 0])])) = 3"
  "stdout (snd (run 32 (step 32 ([ex_conn, ex_conn], ex_world) (0, Setup_fire True))
                     [(1, Setup_fire True), (0, Write_fire), (0, Arrive [0, 2, 0, 0])])) = []"
  by (simp_all add: run_def step_def Let_def setup_writecb_def writecb_def ex_conn_def ex_world_def)

lemma readcb_step_ex:
  assumes "input_buf c = [0, 2, 0, 0]"
  shows "readcb_step c w = Some (0, c\<lparr>input_buf := []\<rparr>, report_rtt c 0 w)"
proof -
  have "DO_NTOHS [0, 2, 0, 0] 0 = 2" and "DO_NTOHS [0, 2, 0, 0] 2 = 0"
    by (simp_all add: DO_NTOHS_def)
  then show ?thesis
    by (simp add: readcb_step_def Let_def assms)
qed

text \<open>
  C2. A send on connection \<open>i\<close> whose identifier is \<open>q\<close> stores the reading of the
  monotonic clock taken by that send in slot \<open>q mod 8\<close> of the connection's ring of time
  stamps. If the response carrying \<open>q\<close> is decoded after at most 7 further sends on
  that connection (any number of events on other connections, arrivals, decodings and
  error events in between), the slot still holds that reading, and the line printed at
  decode time is the receive time minus the send time in whole microseconds (the
  difference in nanoseconds divided by 1000, rounded down). The receive time is a later
  reading of the same clock. The clock is monotonic, and the two readings are what
  \<open>clock_gettime\<close> returns: a normalized nanosecond field and a number of seconds from 0
  up to 9223372036853, so that the microseconds fit a \<open>long\<close>. The initial contents of
  the ring are arbitrary.
\<close>

theorem rtt_within_window:
  fixes s0 s1 s2 :: "conn list \<times> world" and q :: uint16_t
  assumes "i < length (fst s0)"
    and "length (query_timestamps (fst s0 ! i)) = MAX_QUERIES_IN_FLIGHT"
    and "print_rtt (snd s0)"
    and "\<forall>m n. m \<le> n \<longrightarrow> nsecs (clock (snd s0) m) \<le> nsecs (clock (snd s0) n)"
    and "q = query_id (fst s0 ! i)" and "is_send i e"
    and "s1 = step err s0 e"
    and "sends i evs \<le> 7"
    and "s2 = run err s1 evs"
    and "readcb_step (fst s2 ! i) (snd s2) = Some (q, c', w')"
    and "send_time = clock (snd s0) (clock_reads (snd s0))"
    and "receive_time = clock (snd s2) (clock_reads (snd s2))"
    and "clock_stamp send_time" and "clock_stamp receive_time"
  shows "query_timestamps (fst s1 ! i) ! (unat q mod MAX_QUERIES_IN_FLIGHT) = send_time \<and>
         query_timestamps (fst s2 ! i) ! (unat q mod MAX_QUERIES_IN_FLIGHT) = send_time \<and>
         clock (snd s2) = clock (snd s0) \<and> clock_reads (snd s0) < clock_reads (snd s2) \<and>
         stdout w' = stdout (snd s2) @ [(nsecs receive_time - nsecs send_time) div 1000]"
proof -
  let ?k = "unat q mod MAX_QUERIES_IN_FLIGHT"
  have k: "?k < length (query_timestamps (fst s0 ! i))"
    by (simp add: assms(2) MAX_QUERIES_IN_FLIGHT_def)
  have "query_timestamps (fst s1 ! i) = (query_timestamps (fst s0 ! i))[?k := send_time]"
    unfolding assms(7) assms(11) assms(5)
    using assms(6) by (simp add: step_stamps [OF assms(1)])
  with k have slot1: "query_timestamps (fst s1 ! i) ! ?k = send_time"
    by simp
  have len1: "i < length (fst s1)"
    using assms(1) by (simp add: assms(7) length_step)
  have "query_id (fst s1 ! i) = q + 1"
    unfolding assms(7) assms(5) using assms(6) by (simp add: step_query_id [OF assms(1)])
  then have qid1: "query_id (fst s1 ! i) = q + of_nat 1"
    by simp
  have le: "1 + sends i evs \<le> 8"
    using assms(8) by simp
  have "query_timestamps (fst s2 ! i) ! ?k = query_timestamps (fst s1 ! i) ! ?k"
    unfolding assms(9) by (rule slot_kept [OF len1 qid1 _ le]) simp
  with slot1 have slot2: "query_timestamps (fst s2 ! i) ! ?k = send_time"
    by simp
  note w1 = step_world [of err s0 e, folded assms(7)]
  note w2 = run_world [of err s1 evs, folded assms(9)]
  from w1 w2 have clk: "clock (snd s2) = clock (snd s0)"
    by simp
  from w1 w2 assms(3) have prt: "print_rtt (snd s2)"
    by simp
  have "clock_reads (snd s1) = Suc (clock_reads (snd s0))"
    unfolding assms(7) by (rule step_send_reads [OF assms(1) assms(6)])
  with w2 have rd: "clock_reads (snd s0) < clock_reads (snd s2)"
    by linarith
  have "nsecs (clock (snd s0) (clock_reads (snd s0))) \<le> nsecs (clock (snd s0) (clock_reads (snd s2)))"
    using assms(4) rd by (simp add: less_imp_le)
  then have mono: "nsecs send_time \<le> nsecs receive_time"
    by (simp only: assms(11) assms(12) clk)
  have "w' = report_rtt (fst s2 ! i) q (snd s2)"
    by (rule readcb_step_fields(5) [OF assms(10)])
  then have "stdout w' = stdout (snd s2) @ [rtt_usec (subtract_timespec receive_time send_time)]"
    by (simp only: report_rtt_stdout [OF prt] slot2 assms(12))
  also have "rtt_usec (subtract_timespec receive_time send_time) =
               (nsecs receive_time - nsecs send_time) div 1000"
    by (rule rtt_exact [OF assms(14) assms(13) mono])
  finally have out: "stdout w' = stdout (snd s2) @ [(nsecs receive_time - nsecs send_time) div 1000]" .
  from slot1 slot2 clk rd out show ?thesis
    by blast
qed

theorem rtt_within_window_witness:
  "is_send 0 (0, Setup_fire True) \<and>
   sends 0 [(1, Setup_fire True), (0, Write_fire), (0, Arrive [0, 2, 0, 0])] \<le> 7 \<and>
   clock_stamp (ex_clock 0) \<and> clock_stamp (ex_clock 3) \<and>
   query_timestamps
     (fst (run 32 (step 32 ([ex_conn, ex_conn], ex_world) (0, Setup_fire True))
             [(1, Setup_fire True), (0, Write_fire), (0, Arrive [0, 2, 0, 0])]) ! 0) ! 0 = ex_clock 0 \<and>
   (\<exists>c' w'.
      readcb_step
        (fst (run 32 (step 32 ([ex_conn, ex_conn], ex_world) (0, Setup_fire True))
                [(1, Setup_fire True), (0, Write_fire), (0, Arrive [0, 2, 0, 0])]) ! 0)
        (snd (run 32 (step 32 ([ex_conn, ex_conn], ex_world) (0, Setup_fire True))
                [(1, Setup_fire True), (0, Write_fire), (0, Arrive [0, 2, 0, 0])]))
        = Some (0, c', w') \<and>
      stdout w' = [3000000])"
proof -
  let ?s0 = "([ex_conn, ex_conn], ex_world)"
  let ?e = "(0, Setup_fire True) :: nat \<times> event"
  let ?evs = "[(1, Setup_fire True), (0, Write_fire), (0, Arrive [0, 2, 0, 0])]"
  let ?s1 = "step 32 ?s0 ?e"
  let ?s2 = "run 32 ?s1 ?evs"
  note t = ex_trace_facts
  have h1: "0 < length (fst ?s0)"
    by simp
  have h2: "length (query_timestamps (fst ?s0 ! 0)) = MAX_QUERIES_IN_FLIGHT"
    by (simp add: ex_conn_def MAX_QUERIES_IN_FLIGHT_def)
  have h3: "print_rtt (snd ?s0)"
    by (simp add: ex_world_def)
  have h4: "\<forall>m n. m \<le> n \<longrightarrow> nsecs (clock (snd ?s0) m) \<le> nsecs (clock (snd ?s0) n)"
    by (simp add: ex_world_def nsecs_ex_clock)
  have h5: "(0::uint16_t) = query_id (fst ?s0 ! 0)"
    by (simp add: ex_conn_def)
  have h6: "is_send 0 ?e"
    by (simp add: is_send_def)
  have h8: "sends 0 ?evs \<le> 7"
    by (simp add: sends_def is_send_def)
  obtain c' w' where h10: "readcb_step (fst ?s2 ! 0) (snd ?s2) = Some (0, c', w')"
    using readcb_step_ex [OF t(1)] by blast
  have h11: "ex_clock 0 = clock (snd ?s0) (clock_reads (snd ?s0))"
    by (simp add: ex_world_def)
  have clk: "clock (snd ?s2) = ex_clock"
    using run_world [of 32 ?s1 ?evs] step_world [of 32 ?s0 ?e] by (simp add: ex_world_def)
  have h12: "ex_clock 3 = clock (snd ?s2) (clock_reads (snd ?s2))"
    by (simp only: clk t(2))
  have h13: "clock_stamp (ex_clock 0)" and h14: "clock_stamp (ex_clock 3)"
    by (simp_all add: clock_stamp_def normalized_def ex_clock_def)
  note r = rtt_within_window [OF h1 h2 h3 h4 h5 h6 refl h8 refl h10 h11 h12 h13 h14]
  have m: "unat (0::uint16_t) mod MAX_QUERIES_IN_FLIGHT = 0"
    by simp
  from r have "query_timestamps (fst ?s2 ! 0) ! (unat (0::uint16_t) mod MAX_QUERIES_IN_FLIGHT) = ex_clock 0"
    by blast
  then have r1: "query_timestamps (fst ?s2 ! 0) ! 0 = ex_clock 0"
    by (simp only: m)
  have v: "(nsecs (ex_clock 3) - nsecs (ex_clock 0)) div 1000 = 3000000"
    by (simp add: nsecs_ex_clock)
  from r have "stdout w' = stdout (snd ?s2) @ [(nsecs (ex_clock 3) - nsecs (ex_clock 0)) div 1000]"
    by blast
  then have r2: "stdout w' = [3000000]"
    by (simp only: v t(3) append_Nil)
  from h10 r2 have r3: "\<exists>c' w'. readcb_step (fst ?s2 ! 0) (snd ?s2) = Some (0, c', w') \<and> stdout w' = [3000000]"
    by blast
  from h6 h8 h13 h14 r1 r3 show ?thesis
    by blast
qed

end
